theory Spec2Isabelle
  imports Complex_Main "HOL-Library.Log_Nat"
begin

section \<open>Iterators and generators of \<open>src/index.ts\<close>\<close>

text \<open>
  The script defines a hand-written iterator (\<open>range\<close>), three generator functions
  (\<open>xrange\<close>, \<open>fibonacci\<close>, \<open>ipCandidates\<close>) and a few consumers (\<open>useRange\<close>, a
  \<open>for ... of\<close> loop, the spread operator, \<open>ip\<close>).
\<close>

subsection \<open>Numbers\<close>

text \<open>
  A JavaScript number is an IEEE 754 double. The model keeps the doubles whose value is an
  integer, the two infinities and \<open>NaN\<close>; fractions have no term, and the two zeros are
  one. \<open>Num n\<close> stands for a double only when \<open>is_double n\<close> holds: below \<open>2^53\<close> every
  integer is a double, from there on only the multiples of the unit \<open>ulp\<close>, which doubles
  with every further bit (\<open>bitlen\<close> is the number of bits of a positive integer), up to
  \<open>2^1024\<close> exclusive.

  \<open>round53\<close> rounds a non-negative integer to 53 significant bits, to the nearest
  multiple of its unit and to the even one of two nearest; \<open>num\<close> is the double nearest
  to an integer, infinite when the rounded magnitude reaches \<open>2^1024\<close>. It is how
  JavaScript reads an integer literal. \<open>js_add\<close> is \<open>+\<close> and \<open>js_lt\<close> is \<open><\<close> on
  numbers: the sum of two doubles is their exact sum rounded, and it stays within the
  integers, the infinities and \<open>NaN\<close>.
\<close>

datatype jsnum = Num int | PosInfinity | NegInfinity | NaN

definition ulp :: "int \<Rightarrow> int" where
  "ulp x = 2 ^ nat (bitlen x - 53)"

definition is_double :: "int \<Rightarrow> bool" where
  "is_double n = (\<bar>n\<bar> < 2 ^ 1024 \<and> ulp \<bar>n\<bar> dvd n)"

definition round53 :: "int \<Rightarrow> int" where
  "round53 x =
     (let q = ulp x; m = x div q; r = x mod q
      in if 2 * r < q \<or> (2 * r = q \<and> even m) then m * q else (m + 1) * q)"

definition num :: "int \<Rightarrow> jsnum" where
  "num x =
     (if 0 \<le> x
      then (if round53 x < 2 ^ 1024 then Num (round53 x) else PosInfinity)
      else (if round53 (- x) < 2 ^ 1024 then Num (- round53 (- x)) else NegInfinity))"

fun js_add :: "jsnum \<Rightarrow> jsnum \<Rightarrow> jsnum" where
  "js_add (Num a) (Num b) = num (a + b)"
| "js_add NaN y = NaN"
| "js_add x NaN = NaN"
| "js_add PosInfinity NegInfinity = NaN"
| "js_add NegInfinity PosInfinity = NaN"
| "js_add PosInfinity y = PosInfinity"
| "js_add x PosInfinity = PosInfinity"
| "js_add NegInfinity y = NegInfinity"
| "js_add x NegInfinity = NegInfinity"

fun js_lt :: "jsnum \<Rightarrow> jsnum \<Rightarrow> bool" where
  "js_lt (Num a) (Num b) = (a < b)"
| "js_lt NaN y = False"
| "js_lt x NaN = False"
| "js_lt x NegInfinity = False"
| "js_lt PosInfinity y = False"
| "js_lt NegInfinity y = True"
| "js_lt x PosInfinity = True"

subsection \<open>Values\<close>

text \<open>The JavaScript values the script passes around, and their truthiness
  (\<open>if (reset)\<close>, \<open>if (candidate)\<close>).\<close>

datatype jsval = JUndefined | JNull | JBool bool | JNum jsnum | JStr string

fun truthy :: "jsval \<Rightarrow> bool" where
  "truthy JUndefined = False"
| "truthy JNull = False"
| "truthy (JBool b) = b"
| "truthy (JNum n) = (n \<noteq> Num 0 \<and> n \<noteq> NaN)"
| "truthy (JStr s) = (s \<noteq> [])"

text \<open>The object \<open>{ value, done }\<close> that every \<open>next\<close> returns.\<close>

record 'a step_result =
  sr_value :: 'a
  sr_done :: bool

subsection \<open>The iterator \<open>range\<close>\<close>

text \<open>
  \<open>range(start = 0, end = Infinity, step = 1)\<close> returns an object whose \<open>next\<close> closes
  over \<open>index\<close>, \<open>end\<close> and \<open>step\<close>; only \<open>index\<close> is ever assigned. An omitted argument
  is \<open>None\<close> and takes the default. The function is \<open>range_iter\<close> here and its method
  \<open>range_next\<close>, since \<open>range\<close> and \<open>next\<close> are taken in Isabelle/HOL.
\<close>

record range_state =
  r_index :: jsnum
  r_end :: jsnum
  r_step :: jsnum

definition range_iter :: "jsnum option \<Rightarrow> jsnum option \<Rightarrow> jsnum option \<Rightarrow> range_state" where
  "range_iter start_arg end_arg step_arg =
     (let start = (case start_arg of None \<Rightarrow> Num 0 | Some v \<Rightarrow> v);
          e = (case end_arg of None \<Rightarrow> PosInfinity | Some v \<Rightarrow> v);
          step = (case step_arg of None \<Rightarrow> Num 1 | Some v \<Rightarrow> v)
      in \<lparr>r_index = start, r_end = e, r_step = step\<rparr>)"

definition range_next :: "range_state \<Rightarrow> jsnum step_result \<times> range_state" where
  "range_next s =
     (if js_lt (r_index s) (r_end s)
      then (\<lparr>sr_value = r_index s, sr_done = False\<rparr>,
            s\<lparr>r_index := js_add (r_index s) (r_step s)\<rparr>)
      else (\<lparr>sr_value = r_index s, sr_done = True\<rparr>, s))"

subsection \<open>Calling \<open>next\<close> repeatedly\<close>

text \<open>\<open>resume_n nxt n it\<close> calls \<open>it.next()\<close> \<open>n\<close> times and returns the results in call
  order with the iterator as it is left; \<open>resume_with\<close> passes one argument per call
  (\<open>it.next(v)\<close>).\<close>

fun resume_n :: "('s \<Rightarrow> 'a step_result \<times> 's) \<Rightarrow> nat \<Rightarrow> 's \<Rightarrow> 'a step_result list \<times> 's" where
  "resume_n nxt 0 it = ([], it)"
| "resume_n nxt (Suc n) it =
     (case nxt it of (r, it') \<Rightarrow>
        (case resume_n nxt n it' of (rs, it'') \<Rightarrow> (r # rs, it'')))"

fun resume_with :: "(jsval \<Rightarrow> 's \<Rightarrow> 'a step_result \<times> 's) \<Rightarrow> jsval list \<Rightarrow> 's
    \<Rightarrow> 'a step_result list \<times> 's" where
  "resume_with nxt [] it = ([], it)"
| "resume_with nxt (v # vs) it =
     (case nxt v it of (r, it') \<Rightarrow>
        (case resume_with nxt vs it' of (rs, it'') \<Rightarrow> (r # rs, it'')))"

subsection \<open>The generator \<open>xrange\<close>\<close>

text \<open>
  A generator object is the suspended body of its generator function. \<open>xrange\<close> is either
  not started yet (its arguments bound), suspended at \<open>yield index\<close>, or completed.
  \<open>xrange_test\<close> is the loop head \<open>index < end\<close>: it yields \<open>index\<close> or lets the body run
  off its end, which completes the generator with \<open>{ value: undefined, done: true }\<close>.
  The value passed to \<open>next\<close> is not used by the body.
\<close>

datatype xrange_gen =
    XSuspendedStart jsnum jsnum jsnum
  | XSuspendedYield jsnum jsnum jsnum
  | XCompleted

definition xrange :: "jsnum option \<Rightarrow> jsnum option \<Rightarrow> jsnum option \<Rightarrow> xrange_gen" where
  "xrange start_arg end_arg step_arg =
     (let start = (case start_arg of None \<Rightarrow> Num 0 | Some v \<Rightarrow> v);
          e = (case end_arg of None \<Rightarrow> PosInfinity | Some v \<Rightarrow> v);
          step = (case step_arg of None \<Rightarrow> Num 1 | Some v \<Rightarrow> v)
      in XSuspendedStart start e step)"

definition xrange_test :: "jsnum \<Rightarrow> jsnum \<Rightarrow> jsnum \<Rightarrow> jsval step_result \<times> xrange_gen" where
  "xrange_test index e step =
     (if js_lt index e
      then (\<lparr>sr_value = JNum index, sr_done = False\<rparr>, XSuspendedYield index e step)
      else (\<lparr>sr_value = JUndefined, sr_done = True\<rparr>, XCompleted))"

fun xrange_next :: "jsval \<Rightarrow> xrange_gen \<Rightarrow> jsval step_result \<times> xrange_gen" where
  "xrange_next v (XSuspendedStart start e step) = xrange_test start e step"
| "xrange_next v (XSuspendedYield index e step) = xrange_test (js_add index step) e step"
| "xrange_next v XCompleted = (\<lparr>sr_value = JUndefined, sr_done = True\<rparr>, XCompleted)"

subsection \<open>The generator \<open>fibonacci\<close>\<close>

text \<open>
  The body never returns, so the generator is either not started or suspended at
  \<open>yield current\<close> with its two locals. The argument of the first \<open>next\<close> is dropped (no
  \<open>yield\<close> is waiting for it); the argument of a later one is the value of the \<open>yield\<close>
  expression, bound to \<open>reset\<close>.
\<close>

datatype fibonacci_gen =
    FSuspendedStart
  | FSuspendedYield jsnum jsnum

definition fibonacci :: fibonacci_gen where
  "fibonacci = FSuspendedStart"

fun fibonacci_next :: "jsval \<Rightarrow> fibonacci_gen \<Rightarrow> jsval step_result \<times> fibonacci_gen" where
  "fibonacci_next v FSuspendedStart =
     (\<lparr>sr_value = JNum (Num 0), sr_done = False\<rparr>, FSuspendedYield (Num 0) (Num 1))"
| "fibonacci_next v (FSuspendedYield current nxt) =
     (let reset = v;
          (current', nxt') = (nxt, js_add nxt current);
          (current'', nxt'') = (if truthy reset then (Num 0, Num 1) else (current', nxt'))
      in (\<lparr>sr_value = JNum current'', sr_done = False\<rparr>, FSuspendedYield current'' nxt''))"

subsection \<open>Consumers: spread, \<open>for ... of\<close>, \<open>useRange\<close>\<close>

text \<open>
  \<open>[...it]\<close> and \<open>for (const x of it)\<close> call \<open>next\<close> until a result has \<open>done\<close> set; the
  spread appends each value to the array, the two loops of the script print each value
  with \<open>console.log\<close> (the console is the list of values printed so far). Nothing bounds
  the number of calls, so the loops are partial: \<open>None\<close> is a loop that never ends. Memory
  is not modelled: an engine gives up on an array that outgrows it. The spread and
  \<open>for ... of\<close> take the iterator from an iterable: a generator object is its own, and
  an object returned by \<open>range\<close> is reached through a wrapper such as \<open>iterable\<close> below.
\<close>

partial_function (option) spread :: "('s \<Rightarrow> 'a step_result \<times> 's) \<Rightarrow> 's \<Rightarrow> 'a list
    \<Rightarrow> 'a list option" where
  "spread nxt it arr =
     (case nxt it of (r, it') \<Rightarrow>
        if sr_done r then Some arr else spread nxt it' (arr @ [sr_value r]))"

partial_function (option) for_of_log :: "('s \<Rightarrow> 'a step_result \<times> 's) \<Rightarrow> 's \<Rightarrow> 'a list
    \<Rightarrow> 'a list option" where
  "for_of_log nxt it console =
     (case nxt it of (r, it') \<Rightarrow>
        if sr_done r then Some console else for_of_log nxt it' (console @ [sr_value r]))"

text \<open>\<open>useRange\<close>: \<open>let result = iterator.next(); while (!result.done) { console.log(result.value);
  result = iterator.next(); }\<close>.\<close>

partial_function (option) useRange_while :: "jsnum step_result \<Rightarrow> range_state \<Rightarrow> jsnum list
    \<Rightarrow> jsnum list option" where
  "useRange_while result iterator console =
     (if \<not> sr_done result
      then (case range_next iterator of (result', iterator') \<Rightarrow>
              useRange_while result' iterator' (console @ [sr_value result]))
      else Some console)"

definition useRange :: "jsnum list \<Rightarrow> jsnum list option" where
  "useRange console =
     (let iterator = range_iter (Some (Num 0)) (Some (Num 10)) None
      in case range_next iterator of (result, iterator') \<Rightarrow>
           useRange_while result iterator' console)"

text \<open>The object \<open>iterable\<close>: its \<open>[Symbol.iterator]()\<close> returns a fresh \<open>range(0, 10)\<close>. The
  loop over it and \<open>numbers = [...iterable]\<close> each ask for an iterator of their own.\<close>

definition iterable_iterator :: range_state where
  "iterable_iterator = range_iter (Some (Num 0)) (Some (Num 10)) None"

definition for_of_iterable :: "jsnum list \<Rightarrow> jsnum list option" where
  "for_of_iterable console = for_of_log range_next iterable_iterator console"

definition numbers :: "jsnum list option" where
  "numbers = spread range_next iterable_iterator []"

subsection \<open>The fallback candidates of \<open>ip\<close>\<close>

text \<open>
  \<open>ip\<close> reads two headers and \<open>request.ip\<close>, then walks the generator \<open>ipCandidates\<close> and
  returns the first truthy candidate; with none it logs through \<open>reply.log.error\<close> and
  throws \<open>new Error(...)\<close>. The rejected promise of the \<open>async\<close> function is the \<open>Inl\<close>
  result.

  The two parsers of the script are placeholders that return the constant \<open>"parsed"\<close>.
  \<open>ip_with\<close> takes the parsers as arguments, so that the control flow of \<open>ip\<close> can be
  stated for parsers with any results; \<open>ip\<close> is \<open>ip_with\<close> at the script's own two. Each
  call of a parser and the call of the logger are recorded, in order, in a trace.
\<close>

definition parseApiGatewayHeader :: "jsval \<Rightarrow> string \<Rightarrow> jsval" where
  "parseApiGatewayHeader header secret = JStr ''parsed''"

definition parseCloudflareHeader :: "jsval \<Rightarrow> jsval" where
  "parseCloudflareHeader header = JStr ''parsed''"

record request =
  hdr_api_gw :: jsval
  hdr_cf :: jsval
  req_ip :: jsval

datatype event =
    CallParseApiGateway jsval string
  | CallParseCloudflare jsval
  | LogError "(string \<times> jsval) list" string

datatype js_error = Error string

definition could_not_determine :: string where
  "could_not_determine = ''Could not determine user'' @ [CHR 0x27] @ ''s IP based on request.''"

datatype ipCandidates_gen =
    CSuspendedStart
  | CSuspendedYield1
  | CSuspendedYield2
  | CSuspendedYield3
  | CCompleted

fun ipCandidates_next :: "(jsval \<Rightarrow> string \<Rightarrow> jsval) \<Rightarrow> (jsval \<Rightarrow> jsval) \<Rightarrow> request
    \<Rightarrow> ipCandidates_gen \<Rightarrow> event list \<Rightarrow> jsval step_result \<times> ipCandidates_gen \<times> event list" where
  "ipCandidates_next parse_gw parse_cf req CSuspendedStart tr =
     (\<lparr>sr_value = parse_gw (hdr_api_gw req) ''secret'', sr_done = False\<rparr>,
      CSuspendedYield1, tr @ [CallParseApiGateway (hdr_api_gw req) ''secret''])"
| "ipCandidates_next parse_gw parse_cf req CSuspendedYield1 tr =
     (\<lparr>sr_value = parse_cf (hdr_cf req), sr_done = False\<rparr>,
      CSuspendedYield2, tr @ [CallParseCloudflare (hdr_cf req)])"
| "ipCandidates_next parse_gw parse_cf req CSuspendedYield2 tr =
     (\<lparr>sr_value = req_ip req, sr_done = False\<rparr>, CSuspendedYield3, tr)"
| "ipCandidates_next parse_gw parse_cf req CSuspendedYield3 tr =
     (\<lparr>sr_value = JUndefined, sr_done = True\<rparr>, CCompleted, tr)"
| "ipCandidates_next parse_gw parse_cf req CCompleted tr =
     (\<lparr>sr_value = JUndefined, sr_done = True\<rparr>, CCompleted, tr)"

text \<open>The yields still ahead of a generator state: the measure of the loop below.\<close>

fun yields_left :: "ipCandidates_gen \<Rightarrow> nat" where
  "yields_left CSuspendedStart = 3"
| "yields_left CSuspendedYield1 = 2"
| "yields_left CSuspendedYield2 = 1"
| "yields_left CSuspendedYield3 = 0"
| "yields_left CCompleted = 0"

text \<open>\<open>for (const candidate of ipCandidates()) { if (candidate) return candidate; }\<close>:
  \<open>Some candidate\<close> is the early return, \<open>None\<close> the loop running to its end.\<close>

function ip_for_of :: "(jsval \<Rightarrow> string \<Rightarrow> jsval) \<Rightarrow> (jsval \<Rightarrow> jsval) \<Rightarrow> request
    \<Rightarrow> ipCandidates_gen \<Rightarrow> event list \<Rightarrow> jsval option \<times> event list" where
  "ip_for_of parse_gw parse_cf req g tr =
     (case ipCandidates_next parse_gw parse_cf req g tr of (r, g', tr') \<Rightarrow>
        if sr_done r then (None, tr')
        else if truthy (sr_value r) then (Some (sr_value r), tr')
        else ip_for_of parse_gw parse_cf req g' tr')"
  by pat_completeness auto
termination
proof (relation "measure (\<lambda>(parse_gw, parse_cf, req, g, tr). yields_left g)")
  show "wf (measure (\<lambda>(parse_gw, parse_cf, req, g, tr). yields_left g))"
    by simp
next
  fix parse_gw :: "jsval \<Rightarrow> string \<Rightarrow> jsval" and parse_cf :: "jsval \<Rightarrow> jsval"
    and req :: request and g g' :: ipCandidates_gen and tr tr' :: "event list"
    and r :: "jsval step_result" and x :: "ipCandidates_gen \<times> event list"
  assume "(r, x) = ipCandidates_next parse_gw parse_cf req g tr"
    and "(g', tr') = x" and "\<not> sr_done r"
  then show "((parse_gw, parse_cf, req, g', tr'), (parse_gw, parse_cf, req, g, tr))
      \<in> measure (\<lambda>(parse_gw, parse_cf, req, g, tr). yields_left g)"
    by (cases g) auto
qed

definition ip_with :: "(jsval \<Rightarrow> string \<Rightarrow> jsval) \<Rightarrow> (jsval \<Rightarrow> jsval) \<Rightarrow> request
    \<Rightarrow> (js_error + jsval) \<times> event list" where
  "ip_with parse_gw parse_cf req =
     (let apiGatewayHeader = hdr_api_gw req;
          cloudflareHeader = hdr_cf req;
          requestIp = req_ip req
      in case ip_for_of parse_gw parse_cf req CSuspendedStart [] of
           (Some candidate, tr) \<Rightarrow> (Inr candidate, tr)
         | (None, tr) \<Rightarrow>
             (Inl (Error could_not_determine),
              tr @ [LogError [(''api-gw-header'', apiGatewayHeader),
                              (''cf-header'', cloudflareHeader),
                              (''requestIp'', requestIp)] could_not_determine]))"

definition ip :: "request \<Rightarrow> (js_error + jsval) \<times> event list" where
  "ip req = ip_with parseApiGatewayHeader parseCloudflareHeader req"

section \<open>Properties\<close>

subsection \<open>Rounding\<close>

lemma ulp_pos: "0 < ulp x"
  by (simp add: ulp_def)

lemma ulp_small: "x < 2 ^ 53 \<Longrightarrow> ulp x = 1"
proof -
  assume "x < 2 ^ 53"
  then have "bitlen x \<le> 53"
    by (simp add: bitlen_le_iff_power)
  then show ?thesis
    by (simp add: ulp_def)
qed

lemma ulp_bounds:
  assumes "2 ^ 52 \<le> x"
  shows "2 ^ 52 * ulp x \<le> x \<and> x < 2 ^ 53 * ulp x"
proof -
  have pos: "0 < x"
    by (rule less_le_trans [OF _ assms]) simp
  have ge: "53 \<le> bitlen x"
    using assms by (simp add: bitlen_ge_iff_power)
  define k where "k = nat (bitlen x - 53)"
  have b1: "nat (bitlen x - 1) = 52 + k" and b2: "nat (bitlen x) = 53 + k"
    using ge by (simp_all add: k_def)
  have "2 ^ (52 + k) \<le> x \<and> x < 2 ^ (53 + k)"
    using bitlen_bounds [OF pos] unfolding b1 b2 .
  then show ?thesis
    by (simp add: ulp_def k_def [symmetric] power_add)
qed

lemma ulp_mono_dvd:
  assumes "x \<le> y"
  shows "ulp x dvd ulp y"
proof -
  have "bitlen x \<le> bitlen y"
    using assms by (simp add: bitlen_def floorlog_mono)
  then have "nat (bitlen x - 53) \<le> nat (bitlen y - 53)"
    by simp
  then show ?thesis
    unfolding ulp_def by (rule le_imp_power_dvd)
qed


lemma ulp_eq_bitlen: "bitlen x = bitlen y \<Longrightarrow> ulp x = ulp y"
  by (simp add: ulp_def)

lemma bitlen_mono: "x \<le> y \<Longrightarrow> bitlen x \<le> bitlen y"
  by (simp add: bitlen_def floorlog_mono)

lemma round53_cases:
  "round53 x = (x div ulp x) * ulp x
   \<or> (round53 x = (x div ulp x + 1) * ulp x \<and> 0 < x mod ulp x)"
proof -
  have "0 \<le> x mod ulp x"
    using ulp_pos [of x] by simp
  then show ?thesis
    using ulp_pos [of x] by (auto simp: round53_def Let_def)
qed

lemma div_mult_le_self:
  fixes x q :: int
  shows "0 < q \<Longrightarrow> (x div q) * q \<le> x"
  using div_mult_mod_eq [of x q] pos_mod_sign [of q x] by linarith

lemma round53_ge_floor: "x div ulp x * ulp x \<le> round53 x"
  using round53_cases [of x] ulp_pos [of x] by (auto simp: distrib_right)

lemma le_div_if_mult_le:
  fixes j q x :: int
  assumes "0 < q" and "j * q \<le> x"
  shows "j \<le> x div q"
  using assms zdiv_mono1 by fastforce

lemma lt_succ_div_mult:
  fixes x q :: int
  shows "0 < q \<Longrightarrow> x < (x div q + 1) * q"
proof -
  assume q: "0 < q"
  have "x = x div q * q + x mod q"
    by simp
  moreover have "x mod q < q"
    using q by simp
  ultimately have "x < x div q * q + q"
    by linarith
  then show ?thesis
    by (simp add: distrib_right)
qed


lemma bitlen_53:
  assumes "2 ^ 52 \<le> j" and "j < 2 ^ 53"
  shows "bitlen j = 53"
proof (rule antisym)
  show "bitlen j \<le> 53"
    using assms(2) by (simp add: bitlen_le_iff_power)
  show "53 \<le> bitlen j"
    using assms(1) by (simp add: bitlen_ge_iff_power)
qed

lemma ulp_scaled:
  assumes "2 ^ 52 \<le> j" and "j < 2 ^ 53"
  shows "ulp (j * 2 ^ k) = 2 ^ k"
proof -
  have "0 < j"
    by (rule less_le_trans [OF _ assms(1)]) simp
  then have "bitlen (j * 2 ^ k) = 53 + int k"
    using bitlen_53 [OF assms] by simp
  then show ?thesis
    by (simp add: ulp_def)
qed

lemma ulp_power: "ulp (2 ^ (53 + k)) = 2 ^ Suc k"
proof -
  have "bitlen (1 * 2 ^ (53 + k)) = bitlen 1 + int (53 + k)"
    by (rule bitlen_pow2) simp
  moreover have "bitlen 1 = 1"
    using bitlen_twopow_add_eq [of 0 0] by simp
  ultimately have "bitlen (2 ^ (53 + k)) = 54 + int k"
    by simp
  then show ?thesis
    by (simp add: ulp_def nat_add_distrib)
qed

text \<open>The quotient of a number of at least 53 bits by its unit has exactly 53 bits.\<close>

lemma ulp_quotient:
  assumes "2 ^ 53 \<le> x"
  shows "2 ^ 52 \<le> x div ulp x \<and> x div ulp x < 2 ^ 53"
proof -
  have big: "(2::int) ^ 52 \<le> x"
    by (rule order_trans [OF _ assms]) simp
  have b: "2 ^ 52 * ulp x \<le> x \<and> x < 2 ^ 53 * ulp x"
    by (rule ulp_bounds [OF big])
  have "2 ^ 52 \<le> x div ulp x"
    by (rule le_div_if_mult_le [OF ulp_pos]) (use b in simp)
  moreover have "x div ulp x < 2 ^ 53"
  proof (rule ccontr)
    assume "\<not> x div ulp x < 2 ^ 53"
    then have "2 ^ 53 * ulp x \<le> x div ulp x * ulp x"
      using ulp_pos [of x] by simp
    then show False
      using div_mult_le_self [OF ulp_pos, of x x] b by linarith
  qed
  ultimately show ?thesis ..
qed

lemma ulp_is_power: "\<exists>k. ulp x = 2 ^ k"
  by (auto simp: ulp_def)

lemma round53_small: "0 \<le> x \<Longrightarrow> x < 2 ^ 53 \<Longrightarrow> round53 x = x"
  by (simp add: round53_def ulp_small)

lemma round53_double:
  assumes "0 \<le> x" and "round53 x < 2 ^ 1024"
  shows "is_double (round53 x)"
proof (cases "x < 2 ^ 53")
  case True
  then show ?thesis
    using assms by (simp add: round53_small is_double_def ulp_small)
next
  case False
  then have big: "2 ^ 53 \<le> x" by simp
  obtain k where k: "ulp x = 2 ^ k"
    using ulp_is_power by blast
  define m where "m = x div ulp x"
  have m: "2 ^ 52 \<le> m" "m < 2 ^ 53"
    using ulp_quotient [OF big] by (simp_all add: m_def)
  have "0 \<le> m"
    by (rule order_trans [OF _ m(1)]) simp
  then have "0 \<le> m * ulp x"
    using ulp_pos [of x] by simp
  then have nonneg: "0 \<le> round53 x"
    using round53_ge_floor [of x] by (simp add: m_def)
  consider "round53 x = m * 2 ^ k" | "round53 x = (m + 1) * 2 ^ k"
    using round53_cases [of x] by (auto simp: m_def k)
  then have "ulp (round53 x) dvd round53 x"
  proof cases
    case 1
    then show ?thesis
      using ulp_scaled [OF m, of k] by simp
  next
    case 2
    show ?thesis
    proof (cases "m + 1 < 2 ^ 53")
      case True
      have "2 ^ 52 \<le> m + 1"
        using m(1) by simp
      then show ?thesis
        using ulp_scaled [OF _ True, of k] 2 by simp
    next
      case False
      then have "m + 1 = 2 ^ 53"
        using m(2) by simp
      then have "round53 x = 2 ^ (53 + k)"
        using 2 by (simp add: power_add)
      moreover have "(2::int) ^ Suc k dvd 2 ^ (53 + k)"
        by (rule le_imp_power_dvd) simp
      ultimately show ?thesis
        by (simp only: ulp_power)
    qed
  qed
  then show ?thesis
    using assms(2) nonneg by (simp add: is_double_def)
qed

text \<open>Rounding never crosses a double: it is monotone against every double bound.\<close>

lemma is_double_nonneg_dvd: "is_double b \<Longrightarrow> 0 \<le> b \<Longrightarrow> ulp b dvd b"
  by (simp add: is_double_def)

lemma round53_ge:
  assumes "0 \<le> b" and "b \<le> x" and "is_double b"
  shows "b \<le> round53 x"
proof -
  have "b \<le> x div ulp x * ulp x"
  proof (cases "x < 2 ^ 53")
    case True
    then show ?thesis
      using assms(2) by (simp add: ulp_small)
  next
    case False
    then have big: "2 ^ 53 \<le> x" by simp
    have len: "bitlen b \<le> bitlen x"
      by (rule bitlen_mono [OF assms(2)])
    show ?thesis
    proof (cases "bitlen b = bitlen x")
      case True
      then have "ulp x dvd b"
        using is_double_nonneg_dvd [OF assms(3) assms(1)] by (simp add: ulp_def)
      then obtain j where j: "b = j * ulp x"
        by (auto simp: dvd_def mult.commute)
      then have "j \<le> x div ulp x"
        using assms(2) by (intro le_div_if_mult_le [OF ulp_pos]) simp
      then show ?thesis
        using j ulp_pos [of x] by simp
    next
      case False
      then have lt: "bitlen b \<le> bitlen x - 1"
        using len by simp
      have xpos: "0 < x"
        by (rule less_le_trans [OF _ big]) simp
      have "54 \<le> bitlen x"
        using big by (simp only: bitlen_ge_iff_power) simp
      then have e: "nat (bitlen x - 1) = 52 + nat (bitlen x - 53)"
        by simp
      have "b < 2 ^ nat (bitlen x - 1)"
        using lt bitlen_le_iff_power [of b "bitlen x - 1"] by blast
      also have "\<dots> = 2 ^ 52 * ulp x"
        unfolding e by (simp add: ulp_def power_add)
      also have "\<dots> \<le> x div ulp x * ulp x"
        using ulp_quotient [OF big] ulp_pos [of x] by simp
      finally show ?thesis
        by simp
    qed
  qed
  then show ?thesis
    using round53_ge_floor [of x] by simp
qed

lemma round53_le:
  assumes "0 \<le> x" and "x \<le> a" and "is_double a"
  shows "round53 x \<le> a"
  using round53_cases [of x]
proof
  assume "round53 x = x div ulp x * ulp x"
  then show ?thesis
    using div_mult_le_self [OF ulp_pos, of x x] assms(2) by simp
next
  assume up: "round53 x = (x div ulp x + 1) * ulp x \<and> 0 < x mod ulp x"
  have "0 \<le> a"
    using assms(1,2) by simp
  then have "ulp a dvd a"
    using assms(3) by (rule is_double_nonneg_dvd [rotated])
  moreover have "ulp x dvd ulp a"
    by (rule ulp_mono_dvd [OF assms(2)])
  ultimately have "ulp x dvd a"
    by (rule dvd_trans [rotated])
  then obtain j where j: "a = j * ulp x"
    by (auto simp: dvd_def mult.commute)
  have "x div ulp x * ulp x < x"
    using up div_mult_mod_eq [of x "ulp x"] by linarith
  then have "x div ulp x * ulp x < j * ulp x"
    using assms(2) j by simp
  then have "x div ulp x < j"
    using ulp_pos [of x] by (simp add: mult_less_cancel_right)
  then have "(x div ulp x + 1) * ulp x \<le> j * ulp x"
    using ulp_pos [of x] by (simp add: mult_le_cancel_right)
  then show ?thesis
    using up j by simp
qed

lemma round53_id: "0 \<le> x \<Longrightarrow> is_double x \<Longrightarrow> round53 x = x"
  using round53_le [of x x] round53_ge [of x x] by simp

lemma round53_nonneg: "0 \<le> x \<Longrightarrow> 0 \<le> round53 x"
  using round53_ge [of 0 x] by (simp add: is_double_def)

lemma is_double_minus: "is_double (- a) = is_double a"
  by (simp add: is_double_def)

lemma is_double_bound: "is_double a \<Longrightarrow> \<bar>a\<bar> < 2 ^ 1024"
  by (simp add: is_double_def)

lemma is_double_safe:
  assumes "\<bar>n\<bar> \<le> 2 ^ 53"
  shows "is_double n"
proof (cases "\<bar>n\<bar> < 2 ^ 53")
  case True
  then show ?thesis
    by (simp add: is_double_def ulp_small)
next
  case False
  then have e: "\<bar>n\<bar> = 2 ^ (53 + 0)"
    using assms by simp
  have "ulp \<bar>n\<bar> = 2"
    unfolding e ulp_power by simp
  moreover have "(2::int) dvd \<bar>n\<bar>"
    unfolding e by simp
  then have "(2::int) dvd n"
    by simp
  moreover have "\<bar>n\<bar> < 2 ^ 1024"
    unfolding e by simp
  ultimately show ?thesis
    by (simp only: is_double_def)
qed

lemma num_double: "is_double a \<Longrightarrow> num a = Num a"
proof (cases "0 \<le> a")
  case True
  assume d: "is_double a"
  then show ?thesis
    using True is_double_bound [OF d] by (simp add: num_def round53_id)
next
  case False
  assume d: "is_double a"
  then have "round53 (- a) = - a"
    using False by (intro round53_id) (simp_all add: is_double_minus)
  then show ?thesis
    using False is_double_bound [OF d] by (simp add: num_def)
qed

lemma num_Num_double: "num x = Num y \<Longrightarrow> is_double y"
  using round53_double [of x] round53_double [of "- x"]
  by (auto simp: num_def is_double_minus split: if_splits)

lemma num_le:
  assumes "x \<le> a" and "is_double a"
  shows "num x = NegInfinity \<or> (\<exists>y. num x = Num y \<and> y \<le> a)"
proof (cases "0 \<le> x")
  case True
  have "round53 x \<le> a"
    by (rule round53_le [OF True assms])
  then show ?thesis
    using True is_double_bound [OF assms(2)] by (simp add: num_def)
next
  case False
  then have neg: "0 \<le> - x" by simp
  show ?thesis
  proof (cases "0 \<le> a")
    case True
    then have "- round53 (- x) \<le> a"
      using round53_nonneg [OF neg] by simp
    then show ?thesis
      using False by (simp add: num_def)
  next
    case False
    then have "- a \<le> round53 (- x)"
      using assms by (intro round53_ge) (simp_all add: is_double_minus)
    then show ?thesis
      using \<open>\<not> 0 \<le> x\<close> by (simp add: num_def)
  qed
qed

lemma num_ge:
  assumes "b \<le> x" and "is_double b"
  shows "num x = PosInfinity \<or> (\<exists>y. num x = Num y \<and> b \<le> y)"
proof (cases "0 \<le> x")
  case True
  show ?thesis
  proof (cases "0 \<le> b")
    case True
    have "b \<le> round53 x"
      by (rule round53_ge [OF True assms])
    then show ?thesis
      using \<open>0 \<le> x\<close> by (simp add: num_def)
  next
    case False
    then have "b \<le> round53 x"
      using round53_nonneg [OF True] by simp
    then show ?thesis
      using True by (simp add: num_def)
  qed
next
  case False
  then have neg: "0 \<le> - x" by simp
  have "round53 (- x) \<le> - b"
    using assms by (intro round53_le [OF neg]) (simp_all add: is_double_minus)
  then show ?thesis
    using False is_double_bound [OF assms(2)] by (simp add: num_def)
qed

lemma ulp_eval:
  assumes "2 ^ (52 + k) \<le> x" and "x < 2 ^ (53 + k)"
  shows "ulp x = 2 ^ k"
proof -
  have "bitlen x = 53 + int k"
  proof (rule antisym)
    show "bitlen x \<le> 53 + int k"
      using assms(2) by (simp add: bitlen_le_iff_power nat_add_distrib)
    show "53 + int k \<le> bitlen x"
      using assms(1) by (simp add: bitlen_ge_iff_power nat_add_distrib)
  qed
  then show ?thesis
    by (simp add: ulp_def)
qed

lemma num_safe: "\<bar>x\<bar> \<le> 2 ^ 53 \<Longrightarrow> num x = Num x"
  by (rule num_double [OF is_double_safe])

lemma ulp_54: "2 ^ 53 \<le> x \<Longrightarrow> x < 2 ^ 54 \<Longrightarrow> ulp x = 2"
  using ulp_eval [of 1 x] by simp

lemma js_add_zero_num: "js_add (num x) (Num 0) = num x"
proof (cases "num x")
  case (Num y)
  then have "is_double y"
    by (rule num_Num_double)
  then show ?thesis
    using Num by (simp add: num_double)
qed simp_all

lemma js_lt_Num_mono: "a \<le> b \<Longrightarrow> js_lt (Num b) e \<Longrightarrow> js_lt (Num a) e"
  by (cases e) simp_all

lemma round53_54:
  assumes "2 ^ 53 \<le> x" and "x < 2 ^ 54"
  shows "round53 x = (if even x then x else if even (x div 2) then x - 1 else x + 1)"
proof -
  have u: "ulp x = 2"
    by (rule ulp_54 [OF assms])
  have m: "x mod 2 = (if even x then 0 else 1)"
    by (simp add: even_iff_mod_2_eq_zero odd_iff_mod_2_eq_one)
  have d: "x div 2 * 2 = (if even x then x else x - 1)"
    using div_mult_mod_eq [of x 2] m by (auto split: if_splits)
  show ?thesis
    unfolding round53_def u Let_def using m d by (auto simp: distrib_right)
qed

lemma below_2p1024: "x < 2 ^ 54 \<Longrightarrow> (x::int) + 1 < 2 ^ 1024"
proof -
  assume "x < 2 ^ 54"
  then have "x + 1 \<le> 2 ^ 54"
    by simp
  moreover have "(2::int) ^ 54 < 2 ^ 1024"
    by (rule power_strict_increasing) simp_all
  ultimately show ?thesis
    by (rule le_less_trans)
qed

lemma num_54:
  assumes "2 ^ 53 \<le> x" and "x < 2 ^ 54"
  shows "num x = Num (if even x then x else if even (x div 2) then x - 1 else x + 1)"
proof -
  have r: "round53 x = (if even x then x else if even (x div 2) then x - 1 else x + 1)"
    by (rule round53_54 [OF assms])
  have "round53 x \<le> x + 1"
    unfolding r by simp
  then have fin: "round53 x < 2 ^ 1024"
    using below_2p1024 [OF assms(2)] by (rule le_less_trans)
  have nn: "0 \<le> x"
    by (rule order_trans [OF _ assms(1)]) simp
  have "num x = Num (round53 x)"
    unfolding num_def by (simp only: nn fin if_True)
  then show ?thesis
    by (simp only: r)
qed

lemma num_minus_54:
  assumes "2 ^ 53 \<le> x" and "x < 2 ^ 54"
  shows "num (- x) = Num (- (if even x then x else if even (x div 2) then x - 1 else x + 1))"
proof -
  have r: "round53 x = (if even x then x else if even (x div 2) then x - 1 else x + 1)"
    by (rule round53_54 [OF assms])
  have "round53 x \<le> x + 1"
    unfolding r by simp
  then have fin: "round53 x < 2 ^ 1024"
    using below_2p1024 [OF assms(2)] by (rule le_less_trans)
  have "0 < x"
    by (rule less_le_trans [OF _ assms(1)]) simp
  then have neg: "\<not> 0 \<le> - x"
    by simp
  have "num (- x) = Num (- round53 x)"
    unfolding num_def by (simp only: neg fin if_True if_False minus_minus)
  then show ?thesis
    by (simp only: r)
qed

subsection \<open>Runs and loops\<close>

lemma resume_n_add:
  "resume_n nxt (m + n) it =
     (case resume_n nxt m it of (rs, it') \<Rightarrow>
        (case resume_n nxt n it' of (rs', it'') \<Rightarrow> (rs @ rs', it'')))"
proof (induction m arbitrary: it)
  case 0
  show ?case by simp
next
  case (Suc m)
  obtain r it1 where step: "nxt it = (r, it1)"
    by (cases "nxt it")
  show ?case
    by (simp add: step Suc.IH [of it1] split: prod.split)
qed

lemma resume_n_snoc:
  "resume_n nxt (Suc n) it =
     (case resume_n nxt n it of (rs, it') \<Rightarrow>
        (case nxt it' of (r, it'') \<Rightarrow> (rs @ [r], it'')))"
  using resume_n_add [of nxt n 1 it] by (simp split: prod.split)

subsection \<open>Loops over a finite run\<close>

text \<open>An iterator whose first \<open>n\<close> results are not done and whose next one is done is
  spread in \<open>n + 1\<close> calls, which collect the \<open>n\<close> values in call order.\<close>

lemma spread_finite:
  assumes "resume_n nxt n it = (rs, it')"
    and "list_all (\<lambda>r. \<not> sr_done r) rs"
    and "sr_done (fst (nxt it'))"
  shows "spread nxt it arr = Some (arr @ map sr_value rs)"
  using assms
proof (induction n arbitrary: it rs arr)
  case 0
  then show ?case
    by (subst spread.simps) (auto split: prod.split)
next
  case (Suc n)
  obtain r it1 where step: "nxt it = (r, it1)"
    by (cases "nxt it")
  obtain rs1 where rest: "resume_n nxt n it1 = (rs1, it')" and rs: "rs = r # rs1"
    using Suc.prems(1) step by (auto split: prod.splits)
  have "spread nxt it1 (arr @ [sr_value r]) = Some ((arr @ [sr_value r]) @ map sr_value rs1)"
    using Suc.IH [OF rest _ Suc.prems(3)] Suc.prems(2) rs by simp
  moreover have "\<not> sr_done r"
    using Suc.prems(2) rs by simp
  ultimately show ?case
    by (subst spread.simps) (simp add: step rs)
qed


text \<open>Conversely, a spread that returns has made such a run.\<close>

lemma spread_returns_run:
  assumes "spread nxt it arr = Some ys"
  shows "\<exists>n rs it'. resume_n nxt n it = (rs, it') \<and> list_all (\<lambda>r. \<not> sr_done r) rs
           \<and> sr_done (fst (nxt it')) \<and> ys = arr @ map sr_value rs"
  using assms
proof (induction rule: spread.raw_induct [rotated 1, consumes 1])
  case (1 sp nxt it arr ys)
  obtain r it1 where step: "nxt it = (r, it1)"
    by (cases "nxt it")
  show ?case
  proof (cases "sr_done r")
    case True
    then have "ys = arr"
      using "1.hyps" step by simp
    moreover have "resume_n nxt 0 it = ([], it)"
      by simp
    ultimately show ?thesis
      using True step by (intro exI [of _ 0] exI [of _ "[]"] exI [of _ it]) simp
  next
    case False
    then have "sp nxt it1 (arr @ [sr_value r]) = Some ys"
      using "1.hyps" step by simp
    then obtain n rs it' where run: "resume_n nxt n it1 = (rs, it')"
      and nd: "list_all (\<lambda>r. \<not> sr_done r) rs" and d: "sr_done (fst (nxt it'))"
      and ys: "ys = (arr @ [sr_value r]) @ map sr_value rs"
      using "1.IH" by blast
    have "resume_n nxt (Suc n) it = (r # rs, it')"
      using step run by simp
    then show ?thesis
      using nd d ys False by (intro exI [of _ "Suc n"] exI [of _ "r # rs"] exI [of _ it']) simp
  qed
qed

lemma resume_n_length: "length (fst (resume_n nxt n it)) = n"
proof (induction n arbitrary: it)
  case 0
  show ?case by simp
next
  case (Suc n)
  obtain r it1 where step: "nxt it = (r, it1)"
    by (cases "nxt it")
  show ?case
    using Suc.IH [of it1] by (auto simp: step split: prod.split)
qed



lemma spread_never_done:
  assumes "\<And>n. list_all (\<lambda>r. \<not> sr_done r) (fst (resume_n nxt n it))"
  shows "spread nxt it arr = None"
proof (cases "spread nxt it arr")
  case None
  then show ?thesis .
next
  case (Some ys)
  from spread_returns_run [OF Some] obtain n rs it'
    where all: "resume_n nxt n it = (rs, it') \<and> list_all (\<lambda>r. \<not> sr_done r) rs
           \<and> sr_done (fst (nxt it')) \<and> ys = arr @ map sr_value rs"
    by (elim exE)
  have run: "resume_n nxt n it = (rs, it')"
    using all by (rule conjunct1)
  have d: "sr_done (fst (nxt it'))"
    using all by blast
  obtain r it2 where last: "nxt it' = (r, it2)"
    by (cases "nxt it'")
  have snoc: "resume_n nxt (Suc n) it = (rs @ [r], it2)"
    using run last by (simp add: resume_n_snoc del: resume_n.simps)
  have "list_all (\<lambda>r. \<not> sr_done r) (fst (resume_n nxt (Suc n) it))"
    by (rule assms)
  then have "list_all (\<lambda>r. \<not> sr_done r) (rs @ [r])"
    by (simp only: snoc fst_conv)
  then have "\<not> sr_done r"
    by simp
  then show ?thesis
    using d last by simp
qed

lemma resume_n_fixed:
  "nxt it = (r, it) \<Longrightarrow> resume_n nxt n it = (replicate n r, it)"
  by (induction n) simp_all

lemma spread_fixed:
  assumes "nxt it = (r, it)" and "\<not> sr_done r"
  shows "spread nxt it arr = None"
proof (rule spread_never_done)
  fix n
  show "list_all (\<lambda>r. \<not> sr_done r) (fst (resume_n nxt n it))"
    using assms by (simp add: resume_n_fixed list_all_iff)
qed

subsection \<open>The three loops agree\<close>

text \<open>
  The loops are least fixed points, so that one returns whenever another does is shown by
  fixed-point induction in each direction; two partial results with the same returns are
  equal, also where neither returns.
\<close>

lemma option_eqI:
  fixes a b :: "'a option"
  assumes "\<And>y. a = Some y \<Longrightarrow> b = Some y" and "\<And>y. b = Some y \<Longrightarrow> a = Some y"
  shows "a = b"
  using assms by (cases a; cases b) auto

lemma spread_returns_for_of_log:
  assumes "spread nxt it arr = Some ys"
  shows "for_of_log nxt it arr = Some ys"
  using assms
proof (induction rule: spread.raw_induct [rotated 1, consumes 1])
  case (1 sp nxt it arr ys)
  obtain r it1 where step: "nxt it = (r, it1)"
    by (cases "nxt it")
  show ?case
  proof (cases "sr_done r")
    case True
    then show ?thesis
      using "1.hyps" step by (subst for_of_log.simps) simp
  next
    case False
    then have "sp nxt it1 (arr @ [sr_value r]) = Some ys"
      using "1.hyps" step by simp
    then have "for_of_log nxt it1 (arr @ [sr_value r]) = Some ys"
      by (rule "1.IH")
    then show ?thesis
      using False step by (subst for_of_log.simps) simp
  qed
qed

lemma for_of_log_returns_spread:
  assumes "for_of_log nxt it arr = Some ys"
  shows "spread nxt it arr = Some ys"
  using assms
proof (induction rule: for_of_log.raw_induct [rotated 1, consumes 1])
  case (1 fo nxt it arr ys)
  obtain r it1 where step: "nxt it = (r, it1)"
    by (cases "nxt it")
  show ?case
  proof (cases "sr_done r")
    case True
    then show ?thesis
      using "1.hyps" step by (subst spread.simps) simp
  next
    case False
    then have "fo nxt it1 (arr @ [sr_value r]) = Some ys"
      using "1.hyps" step by simp
    then have "spread nxt it1 (arr @ [sr_value r]) = Some ys"
      by (rule "1.IH")
    then show ?thesis
      using False step by (subst spread.simps) simp
  qed
qed

lemma spread_eq_for_of_log:
  "spread nxt it arr = for_of_log nxt it arr"
  by (rule option_eqI) (erule spread_returns_for_of_log for_of_log_returns_spread)+

lemma for_of_log_returns_useRange_while:
  assumes "for_of_log nxt it console = Some ys" and "nxt = range_next"
  shows "useRange_while (fst (range_next it)) (snd (range_next it)) console = Some ys"
  using assms
proof (induction rule: for_of_log.raw_induct [rotated 1, consumes 1])
  case (1 fo nxt it console ys)
  obtain r it1 where step: "range_next it = (r, it1)"
    by (cases "range_next it")
  show ?case
  proof (cases "sr_done r")
    case True
    then show ?thesis
      using "1.hyps" "1.prems" step by (subst useRange_while.simps) simp
  next
    case False
    then have "fo nxt it1 (console @ [sr_value r]) = Some ys"
      using "1.hyps" "1.prems" step by simp
    then have "useRange_while (fst (range_next it1)) (snd (range_next it1))
        (console @ [sr_value r]) = Some ys"
      using "1.prems" by (rule "1.IH")
    then show ?thesis
      using False step by (subst useRange_while.simps) (auto split: prod.split)
  qed
qed

lemma useRange_while_returns_for_of_log:
  assumes "useRange_while result iterator console = Some ys"
    and "range_next it = (result, iterator)"
  shows "for_of_log range_next it console = Some ys"
  using assms
proof (induction arbitrary: it rule: useRange_while.raw_induct [rotated 1, consumes 1])
  case (1 uw result iterator console ys)
  show ?case
  proof (cases "sr_done result")
    case True
    then show ?thesis
      using "1.hyps" "1.prems" by (subst for_of_log.simps) simp
  next
    case False
    obtain r1 it1 where step: "range_next iterator = (r1, it1)"
      by (cases "range_next iterator")
    have "uw r1 it1 (console @ [sr_value result]) = Some ys"
      using "1.hyps" False step by simp
    then have "for_of_log range_next iterator (console @ [sr_value result]) = Some ys"
      using step by (rule "1.IH")
    then show ?thesis
      using False "1.prems" by (subst for_of_log.simps) simp
  qed
qed

lemma useRange_while_eq_for_of_log:
  "useRange_while (fst (range_next it)) (snd (range_next it)) console
     = for_of_log range_next it console"
proof (rule option_eqI)
  fix ys
  assume "useRange_while (fst (range_next it)) (snd (range_next it)) console = Some ys"
  then show "for_of_log range_next it console = Some ys"
    by (rule useRange_while_returns_for_of_log) simp
next
  fix ys
  assume "for_of_log range_next it console = Some ys"
  then show "useRange_while (fst (range_next it)) (snd (range_next it)) console = Some ys"
    by (rule for_of_log_returns_useRange_while) simp
qed

subsection \<open>The count of a progression\<close>

lemma less_count_iff:
  fixes d step :: int
  assumes "0 < step"
  shows "(k < nat \<lceil>real_of_int d / real_of_int step\<rceil>) = (int k * step < d)"
proof -
  have "(k < nat \<lceil>real_of_int d / real_of_int step\<rceil>)
      = (int k < \<lceil>real_of_int d / real_of_int step\<rceil>)"
    by linarith
  also have "\<dots> = (real_of_int (int k) < real_of_int d / real_of_int step)"
    by (simp only: less_ceiling_iff)
  also have "\<dots> = (real_of_int (int k) * real_of_int step < real_of_int d)"
    using assms by (simp add: pos_less_divide_eq)
  also have "\<dots> = (int k * step < d)"
    by (metis of_int_less_iff of_int_mult)
  finally show ?thesis .
qed

lemma progression_sorted:
  fixes start step :: int
  assumes "0 < step"
  shows "sorted_wrt (<) (map (\<lambda>k. start + int k * step) [0..<N])"
  using assms by (simp add: sorted_wrt_map sorted_wrt_iff_nth_less)

lemma progression_set:
  fixes start e step :: int
  assumes pos: "0 < step"
  shows "set (map (\<lambda>k. start + int k * step)
            [0..<nat \<lceil>real_of_int (e - start) / real_of_int step\<rceil>])
       = {x. x < e \<and> (\<exists>k::nat. x = start + int k * step)}"
proof -
  let ?N = "nat \<lceil>real_of_int (e - start) / real_of_int step\<rceil>"
  have iff: "(k < ?N) = (start + int k * step < e)" for k
  proof -
    have "(k < ?N) = (int k * step < e - start)"
      by (rule less_count_iff [OF pos])
    then show ?thesis by linarith
  qed
  show ?thesis
  proof (rule set_eqI)
    fix x
    have "x \<in> set (map (\<lambda>k. start + int k * step) [0..<?N])
        \<longleftrightarrow> (\<exists>k<?N. x = start + int k * step)"
      by (simp only: set_map set_upt image_iff Bex_def atLeastLessThan_iff) blast
    also have "\<dots> \<longleftrightarrow> (\<exists>k::nat. start + int k * step < e \<and> x = start + int k * step)"
      by (simp only: iff)
    also have "\<dots> \<longleftrightarrow> x < e \<and> (\<exists>k::nat. x = start + int k * step)"
      by blast
    finally show "x \<in> set (map (\<lambda>k. start + int k * step) [0..<?N])
        \<longleftrightarrow> x \<in> {x. x < e \<and> (\<exists>k::nat. x = start + int k * step)}"
      by simp
  qed
qed

subsection \<open>Runs of \<open>range\<close>\<close>

lemma range_next_exhausted:
  "\<not> js_lt (r_index s) (r_end s) \<Longrightarrow>
   range_next s = (\<lparr>sr_value = r_index s, sr_done = True\<rparr>, s)"
  by (simp add: range_next_def)

lemma range_next_done_iff: "sr_done (fst (range_next s)) = (\<not> js_lt (r_index s) (r_end s))"
  by (simp add: range_next_def)

lemma resume_n_range_exhausted:
  "\<not> js_lt (r_index s) (r_end s) \<Longrightarrow>
   resume_n range_next n s = (replicate n \<lparr>sr_value = r_index s, sr_done = True\<rparr>, s)"
  by (induction n) (simp_all add: range_next_exhausted)

lemma range_next_active:
  "js_lt (Num c) e \<Longrightarrow>
   range_next \<lparr>r_index = Num c, r_end = e, r_step = Num step\<rparr> =
     (\<lparr>sr_value = Num c, sr_done = False\<rparr>,
      \<lparr>r_index = num (c + step), r_end = e, r_step = Num step\<rparr>)"
  by (simp add: range_next_def)

text \<open>While the cursor is a double below \<open>end\<close>, the run is the exact progression; the
  cursor it leaves is the rounded next term.\<close>

lemma resume_n_range_exact:
  assumes "\<And>k. k < n \<Longrightarrow> is_double (start + int k * step) \<and> js_lt (Num (start + int k * step)) e"
  shows "resume_n range_next n \<lparr>r_index = num start, r_end = e, r_step = Num step\<rparr> =
     (map (\<lambda>k. \<lparr>sr_value = Num (start + int k * step), sr_done = False\<rparr>) [0..<n],
      \<lparr>r_index = num (start + int n * step), r_end = e, r_step = Num step\<rparr>)"
  using assms
proof (induction n)
  case 0
  show ?case by simp
next
  case (Suc n)
  have here: "is_double (start + int n * step)" "js_lt (Num (start + int n * step)) e"
    using Suc.prems [of n] by simp_all
  have cur: "num (start + int n * step) = Num (start + int n * step)"
    by (rule num_double [OF here(1)])
  have run: "resume_n range_next n \<lparr>r_index = num start, r_end = e, r_step = Num step\<rparr> =
     (map (\<lambda>k. \<lparr>sr_value = Num (start + int k * step), sr_done = False\<rparr>) [0..<n],
      \<lparr>r_index = num (start + int n * step), r_end = e, r_step = Num step\<rparr>)"
    using Suc.IH Suc.prems by simp
  have nxt: "range_next \<lparr>r_index = num (start + int n * step), r_end = e, r_step = Num step\<rparr> =
     (\<lparr>sr_value = Num (start + int n * step), sr_done = False\<rparr>,
      \<lparr>r_index = num (start + int (Suc n) * step), r_end = e, r_step = Num step\<rparr>)"
  proof -
    have e: "start + int (Suc n) * step = start + int n * step + step"
      by (simp add: algebra_simps)
    show ?thesis
      unfolding cur e by (rule range_next_active [OF here(2)])
  qed
  show ?case
    by (simp only: resume_n_snoc run nxt prod.case upt_Suc_append [OF le0] map_append list.map)
qed

lemma range_finite_run:
  fixes start e step :: int
  assumes fin: "0 < step \<or> e \<le> start"
    and N: "N = (if start < e then nat \<lceil>real_of_int (e - start) / real_of_int step\<rceil> else 0)"
  shows "(\<forall>k<N. start + int k * step < e) \<and> e \<le> start + int N * step"
proof (cases "start < e")
  case True
  then have pos: "0 < step" using fin by simp
  have N': "N = nat \<lceil>real_of_int (e - start) / real_of_int step\<rceil>"
    using N True by simp
  have "\<And>k. (k < N) = (int k * step < e - start)"
    unfolding N' by (rule less_count_iff [OF pos])
  then have "\<forall>k<N. start + int k * step < e" and "\<not> int N * step < e - start"
    by auto
  then show ?thesis by auto
next
  case False
  then show ?thesis using N by simp
qed


lemma safe_progression:
  fixes start e step :: int
  assumes "\<bar>start\<bar> \<le> 2 ^ 53" and "\<bar>e\<bar> \<le> 2 ^ 53" and "0 < step"
    and "N = nat \<lceil>real_of_int (e - start) / real_of_int step\<rceil>"
  shows "(\<forall>k<N. is_double (start + int k * step) \<and> js_lt (Num (start + int k * step)) (Num e))
       \<and> e \<le> start + int N * step"
proof -
  have N: "N = (if start < e then nat \<lceil>real_of_int (e - start) / real_of_int step\<rceil> else 0)"
  proof (cases "start < e")
    case True
    then show ?thesis using assms(4) by simp
  next
    case False
    then have "real_of_int (e - start) / real_of_int step \<le> 0"
      using assms(3) by (simp add: divide_nonpos_pos)
    then have "\<lceil>real_of_int (e - start) / real_of_int step\<rceil> \<le> 0"
      by (simp add: ceiling_le_iff)
    then show ?thesis using assms(4) by simp
  qed
  have run: "(\<forall>k<N. start + int k * step < e) \<and> e \<le> start + int N * step"
    by (rule range_finite_run [OF _ N]) (use assms(3) in simp)
  have "is_double (start + int k * step) \<and> js_lt (Num (start + int k * step)) (Num e)"
    if "k < N" for k
  proof -
    have lt: "start + int k * step < e"
      using run that by simp
    have "0 \<le> int k * step"
      using assms(3) by simp
    then have "\<bar>start + int k * step\<bar> \<le> 2 ^ 53"
      using lt assms(1,2) by linarith
    then show ?thesis
      using lt by (simp add: is_double_safe)
  qed
  then show ?thesis
    using run by simp
qed

lemma num_not_below:
  assumes "e \<le> x" and "is_double e"
  shows "\<not> js_lt (num x) (Num e)"
  using num_ge [OF assms] by auto

lemma spread_range_safe:
  fixes start e step :: int
  assumes "\<bar>start\<bar> \<le> 2 ^ 53" and "\<bar>e\<bar> \<le> 2 ^ 53" and "0 < step"
    and "N = nat \<lceil>real_of_int (e - start) / real_of_int step\<rceil>"
  shows "spread range_next \<lparr>r_index = Num start, r_end = Num e, r_step = Num step\<rparr> arr =
     Some (arr @ map (\<lambda>k. Num (start + int k * step)) [0..<N])"
proof -
  have prog: "(\<forall>k<N. is_double (start + int k * step) \<and> js_lt (Num (start + int k * step)) (Num e))
       \<and> e \<le> start + int N * step"
    by (rule safe_progression [OF assms])
  have s: "num start = Num start"
    by (rule num_safe [OF assms(1)])
  have r: "resume_n range_next N \<lparr>r_index = Num start, r_end = Num e, r_step = Num step\<rparr> =
     (map (\<lambda>k. \<lparr>sr_value = Num (start + int k * step), sr_done = False\<rparr>) [0..<N],
      \<lparr>r_index = num (start + int N * step), r_end = Num e, r_step = Num step\<rparr>)"
    using resume_n_range_exact [of N start step "Num e"] prog unfolding s by blast
  have "\<not> js_lt (num (start + int N * step)) (Num e)"
    by (rule num_not_below) (use prog assms(2) in \<open>simp_all add: is_double_safe\<close>)
  then have d: "sr_done (fst (range_next
      \<lparr>r_index = num (start + int N * step), r_end = Num e, r_step = Num step\<rparr>))"
    by (simp add: range_next_done_iff)
  have "spread range_next \<lparr>r_index = Num start, r_end = Num e, r_step = Num step\<rparr> arr =
      Some (arr @ map sr_value
        (map (\<lambda>k. \<lparr>sr_value = Num (start + int k * step), sr_done = False\<rparr>) [0..<N]))"
    by (rule spread_finite [OF r _ d]) (simp add: list_all_iff)
  then show ?thesis
    by (simp add: comp_def)
qed

subsection \<open>Runs of \<open>xrange\<close>\<close>

lemma resume_n_xrange_yielded:
  assumes "\<And>k. k < n \<Longrightarrow>
      is_double (i + int (Suc k) * step) \<and> js_lt (Num (i + int (Suc k) * step)) e"
  shows "resume_n (xrange_next v) n (XSuspendedYield (Num i) e (Num step)) =
     (map (\<lambda>k. \<lparr>sr_value = JNum (Num (i + int (Suc k) * step)), sr_done = False\<rparr>) [0..<n],
      XSuspendedYield (Num (i + int n * step)) e (Num step))"
  using assms
proof (induction n)
  case 0
  show ?case by simp
next
  case (Suc n)
  have here: "is_double (i + int (Suc n) * step)" "js_lt (Num (i + int (Suc n) * step)) e"
    using Suc.prems [of n] by simp_all
  have e: "i + int n * step + step = i + int (Suc n) * step"
    by (simp add: algebra_simps)
  have run: "resume_n (xrange_next v) n (XSuspendedYield (Num i) e (Num step)) =
     (map (\<lambda>k. \<lparr>sr_value = JNum (Num (i + int (Suc k) * step)), sr_done = False\<rparr>) [0..<n],
      XSuspendedYield (Num (i + int n * step)) e (Num step))"
    using Suc.IH Suc.prems by simp
  have nxt: "xrange_next v (XSuspendedYield (Num (i + int n * step)) e (Num step)) =
     (\<lparr>sr_value = JNum (Num (i + int (Suc n) * step)), sr_done = False\<rparr>,
      XSuspendedYield (Num (i + int (Suc n) * step)) e (Num step))"
    using here by (simp only: xrange_next.simps js_add.simps e xrange_test_def num_double if_True)
  show ?case
    by (simp only: resume_n_snoc run nxt prod.case upt_Suc_append [OF le0] map_append list.map)
qed

lemma resume_n_xrange_start:
  assumes "\<And>k. k < Suc n \<Longrightarrow>
      is_double (start + int k * step) \<and> js_lt (Num (start + int k * step)) e"
  shows "resume_n (xrange_next v) (Suc n) (XSuspendedStart (Num start) e (Num step)) =
     (map (\<lambda>k. \<lparr>sr_value = JNum (Num (start + int k * step)), sr_done = False\<rparr>) [0..<Suc n],
      XSuspendedYield (Num (start + int n * step)) e (Num step))"
proof -
  have first: "xrange_next v (XSuspendedStart (Num start) e (Num step)) =
      (\<lparr>sr_value = JNum (Num start), sr_done = False\<rparr>, XSuspendedYield (Num start) e (Num step))"
    using assms [of 0] by (simp add: xrange_test_def)
  have rest: "resume_n (xrange_next v) n (XSuspendedYield (Num start) e (Num step)) =
     (map (\<lambda>k. \<lparr>sr_value = JNum (Num (start + int (Suc k) * step)), sr_done = False\<rparr>) [0..<n],
      XSuspendedYield (Num (start + int n * step)) e (Num step))"
    by (rule resume_n_xrange_yielded) (use assms [of "Suc _"] in simp)
  have "[0..<Suc n] = 0 # map Suc [0..<n]"
    by (simp add: upt_conv_Cons map_Suc_upt del: upt_Suc)
  then have "map (\<lambda>k. \<lparr>sr_value = JNum (Num (start + int k * step)), sr_done = False\<rparr>) [0..<Suc n]
      = \<lparr>sr_value = JNum (Num start), sr_done = False\<rparr>
        # map (\<lambda>k. \<lparr>sr_value = JNum (Num (start + int (Suc k) * step)), sr_done = False\<rparr>) [0..<n]"
    by (simp add: comp_def del: upt_Suc)
  then show ?thesis
    using first rest by (simp del: upt_Suc)
qed

lemma spread_xrange_safe:
  fixes start e step :: int
  assumes "\<bar>start\<bar> \<le> 2 ^ 53" and "\<bar>e\<bar> \<le> 2 ^ 53" and "0 < step"
    and "N = nat \<lceil>real_of_int (e - start) / real_of_int step\<rceil>"
  shows "spread (xrange_next v) (XSuspendedStart (Num start) (Num e) (Num step)) arr =
     Some (arr @ map (\<lambda>k. JNum (Num (start + int k * step))) [0..<N])"
proof -
  have prog: "(\<forall>k<N. is_double (start + int k * step) \<and> js_lt (Num (start + int k * step)) (Num e))
       \<and> e \<le> start + int N * step"
    by (rule safe_progression [OF assms])
  have de: "is_double e"
    by (rule is_double_safe [OF assms(2)])
  show ?thesis
  proof (cases N)
    case 0
    then have "\<not> js_lt (Num start) (Num e)"
      using prog by simp
    then show ?thesis
      using 0 by (subst spread.simps) (simp add: xrange_test_def)
  next
    case (Suc n)
    have r: "resume_n (xrange_next v) (Suc n) (XSuspendedStart (Num start) (Num e) (Num step)) =
     (map (\<lambda>k. \<lparr>sr_value = JNum (Num (start + int k * step)), sr_done = False\<rparr>) [0..<Suc n],
      XSuspendedYield (Num (start + int n * step)) (Num e) (Num step))"
      by (rule resume_n_xrange_start) (use prog Suc in simp)
    have eq: "start + int n * step + step = start + int N * step"
      using Suc by (simp add: algebra_simps)
    have "\<not> js_lt (num (start + int N * step)) (Num e)"
      by (rule num_not_below [OF _ de]) (use prog in simp)
    then have "\<not> js_lt (num (start + int n * step + step)) (Num e)"
      unfolding eq .
    then have d: "sr_done (fst (xrange_next v
        (XSuspendedYield (Num (start + int n * step)) (Num e) (Num step))))"
      by (simp add: xrange_test_def)
    have "spread (xrange_next v) (XSuspendedStart (Num start) (Num e) (Num step)) arr =
      Some (arr @ map sr_value
        (map (\<lambda>k. \<lparr>sr_value = JNum (Num (start + int k * step)), sr_done = False\<rparr>) [0..<Suc n]))"
      by (rule spread_finite [OF r _ d]) (simp add: list_all_iff)
    then show ?thesis
      using Suc by (simp add: comp_def del: upt_Suc)
  qed
qed

subsection \<open>Materialized ranges\<close>

text \<open>
  C1, as stated, fails: it holds of exact arithmetic, and the cursor is a double. With
  \<open>start = 2^53\<close>, \<open>end = 2^53 + 12\<close> and \<open>step = 3\<close> each sum is rounded to an even
  integer: the sequence materializes to the three values \<open>2^53\<close>, \<open>2^53 + 4\<close>, \<open>2^53 + 8\<close>,
  not the four of the progression. With \<open>end = 2^53 + 2\<close> and \<open>step = 1\<close> the sum
  \<open>2^53 + 1\<close> is rounded back to \<open>2^53\<close> and neither \<open>range\<close> nor \<open>xrange\<close> is ever done.
\<close>

theorem range_materialized_rounds:
  "spread range_next (range_iter (Some (Num (2 ^ 53))) (Some (Num (2 ^ 53 + 12))) (Some (Num 3))) []
     = Some [Num (2 ^ 53), Num (2 ^ 53 + 4), Num (2 ^ 53 + 8)]
   \<and> spread range_next (range_iter (Some (Num (2 ^ 53))) (Some (Num (2 ^ 53 + 2))) (Some (Num 1))) []
     = None
   \<and> spread (xrange_next JUndefined)
       (xrange (Some (Num (2 ^ 53))) (Some (Num (2 ^ 53 + 2))) (Some (Num 1))) []
     = None"
proof (intro conjI)
  have r: "resume_n range_next 3 \<lparr>r_index = Num (2 ^ 53), r_end = Num (2 ^ 53 + 12), r_step = Num 3\<rparr>
      = ([\<lparr>sr_value = Num (2 ^ 53), sr_done = False\<rparr>,
          \<lparr>sr_value = Num (2 ^ 53 + 4), sr_done = False\<rparr>,
          \<lparr>sr_value = Num (2 ^ 53 + 8), sr_done = False\<rparr>],
         \<lparr>r_index = Num (2 ^ 53 + 12), r_end = Num (2 ^ 53 + 12), r_step = Num 3\<rparr>)"
    by (simp add: range_next_def numeral_3_eq_3 num_54)
  have d: "sr_done (fst (range_next
      \<lparr>r_index = Num (2 ^ 53 + 12), r_end = Num (2 ^ 53 + 12), r_step = Num 3\<rparr>))"
    by (simp add: range_next_def)
  have "spread range_next \<lparr>r_index = Num (2 ^ 53), r_end = Num (2 ^ 53 + 12), r_step = Num 3\<rparr> []
      = Some ([] @ map sr_value [\<lparr>sr_value = Num (2 ^ 53), sr_done = False\<rparr>,
          \<lparr>sr_value = Num (2 ^ 53 + 4), sr_done = False\<rparr>,
          \<lparr>sr_value = Num (2 ^ 53 + 8), sr_done = False\<rparr>])"
    by (rule spread_finite [OF r _ d]) simp
  then show "spread range_next
      (range_iter (Some (Num (2 ^ 53))) (Some (Num (2 ^ 53 + 12))) (Some (Num 3))) []
     = Some [Num (2 ^ 53), Num (2 ^ 53 + 4), Num (2 ^ 53 + 8)]"
    by (simp add: range_iter_def)
next
  have "range_next \<lparr>r_index = Num (2 ^ 53), r_end = Num (2 ^ 53 + 2), r_step = Num 1\<rparr>
      = (\<lparr>sr_value = Num (2 ^ 53), sr_done = False\<rparr>,
         \<lparr>r_index = Num (2 ^ 53), r_end = Num (2 ^ 53 + 2), r_step = Num 1\<rparr>)"
    by (simp add: range_next_def num_54)
  then have "spread range_next
      \<lparr>r_index = Num (2 ^ 53), r_end = Num (2 ^ 53 + 2), r_step = Num 1\<rparr> [] = None"
    by (rule spread_fixed) simp
  then show "spread range_next
      (range_iter (Some (Num (2 ^ 53))) (Some (Num (2 ^ 53 + 2))) (Some (Num 1))) [] = None"
    by (simp add: range_iter_def)
next
  have "xrange_next JUndefined (XSuspendedYield (Num (2 ^ 53)) (Num (2 ^ 53 + 2)) (Num 1))
      = (\<lparr>sr_value = JNum (Num (2 ^ 53)), sr_done = False\<rparr>,
         XSuspendedYield (Num (2 ^ 53)) (Num (2 ^ 53 + 2)) (Num 1))"
    by (simp add: xrange_test_def num_54)
  then have "spread (xrange_next JUndefined)
      (XSuspendedYield (Num (2 ^ 53)) (Num (2 ^ 53 + 2)) (Num 1)) [JNum (Num (2 ^ 53))] = None"
    by (rule spread_fixed) simp
  then show "spread (xrange_next JUndefined)
       (xrange (Some (Num (2 ^ 53))) (Some (Num (2 ^ 53 + 2))) (Some (Num 1))) [] = None"
    by (subst spread.simps) (simp add: xrange_def xrange_test_def)
qed

text \<open>
  C1, amended. For integers \<open>start\<close>, \<open>end\<close> and \<open>step\<close> of magnitude at most \<open>2^53\<close> with
  \<open>step > 0\<close>, spreading \<open>range(start, end, step)\<close> (through an iterable) or
  \<open>xrange(start, end, step)\<close> into an array ends and gives the arithmetic progression
  \<open>start, start + step, ...\<close> with \<open>ceil((end - start) / step)\<close> elements (none when that
  is not positive): it is strictly ascending, and its elements are exactly the values of
  the progression below \<open>end\<close>. The witness is \<open>range(0, 10)\<close>, materialized to
  \<open>[0, ..., 9]\<close>.
\<close>

theorem range_materialized:
  fixes start e step :: int
  assumes "\<bar>start\<bar> \<le> 2 ^ 53" and "\<bar>e\<bar> \<le> 2 ^ 53" and "0 < step" and "step \<le> 2 ^ 53"
  shows "spread range_next (range_iter (Some (Num start)) (Some (Num e)) (Some (Num step))) []
           = Some (map (\<lambda>k. Num (start + int k * step))
               [0..<nat \<lceil>real_of_int (e - start) / real_of_int step\<rceil>])
       \<and> spread (xrange_next JUndefined)
             (xrange (Some (Num start)) (Some (Num e)) (Some (Num step))) []
           = Some (map (\<lambda>k. JNum (Num (start + int k * step)))
               [0..<nat \<lceil>real_of_int (e - start) / real_of_int step\<rceil>])
       \<and> sorted_wrt (<) (map (\<lambda>k. start + int k * step)
               [0..<nat \<lceil>real_of_int (e - start) / real_of_int step\<rceil>])
       \<and> set (map (\<lambda>k. start + int k * step)
               [0..<nat \<lceil>real_of_int (e - start) / real_of_int step\<rceil>])
           = {x. x < e \<and> (\<exists>k::nat. x = start + int k * step)}"
proof -
  let ?N = "nat \<lceil>real_of_int (e - start) / real_of_int step\<rceil>"
  have a: "spread range_next (range_iter (Some (Num start)) (Some (Num e)) (Some (Num step))) []
      = Some (map (\<lambda>k. Num (start + int k * step)) [0..<?N])"
    using spread_range_safe [OF assms(1,2,3) refl, of "[]"] by (simp add: range_iter_def)
  have b: "spread (xrange_next JUndefined)
        (xrange (Some (Num start)) (Some (Num e)) (Some (Num step))) []
      = Some (map (\<lambda>k. JNum (Num (start + int k * step))) [0..<?N])"
    using spread_xrange_safe [OF assms(1,2,3) refl, of JUndefined "[]"] by (simp add: xrange_def)
  show ?thesis
    by (intro conjI) (rule a b progression_sorted [OF assms(3)] progression_set [OF assms(3)])+
qed

theorem range_materialized_witness:
  "\<bar>0::int\<bar> \<le> 2 ^ 53 \<and> \<bar>10::int\<bar> \<le> 2 ^ 53 \<and> (0::int) < 1 \<and> (1::int) \<le> 2 ^ 53
   \<and> spread range_next (range_iter (Some (Num 0)) (Some (Num 10)) None) []
       = Some [Num 0, Num 1, Num 2, Num 3, Num 4, Num 5, Num 6, Num 7, Num 8, Num 9]
   \<and> spread (xrange_next JUndefined) (xrange (Some (Num 0)) (Some (Num 10)) None) []
       = Some [JNum (Num 0), JNum (Num 1), JNum (Num 2), JNum (Num 3), JNum (Num 4),
               JNum (Num 5), JNum (Num 6), JNum (Num 7), JNum (Num 8), JNum (Num 9)]"
proof -
  have h: "\<bar>0::int\<bar> \<le> 2 ^ 53" "\<bar>10::int\<bar> \<le> 2 ^ 53" "(0::int) < 1" "(1::int) \<le> 2 ^ 53"
    by simp_all
  have n: "nat \<lceil>real_of_int (10 - 0) / real_of_int 1\<rceil> = 10"
    by simp
  have l: "[0..<10] = [0, 1, 2, 3, 4, 5, 6, 7, 8, 9]"
    by (simp add: upt_rec)
  have r: "range_iter (Some (Num 0)) (Some (Num 10)) None
      = range_iter (Some (Num 0)) (Some (Num 10)) (Some (Num 1))"
    by (simp add: range_iter_def)
  have x: "xrange (Some (Num 0)) (Some (Num 10)) None
      = xrange (Some (Num 0)) (Some (Num 10)) (Some (Num 1))"
    by (simp add: xrange_def)
  show ?thesis
    using range_materialized [OF h] h unfolding n l r x by simp
qed

subsection \<open>Resuming \<open>fibonacci\<close>\<close>

lemma fibonacci_next_reset:
  "truthy v \<Longrightarrow>
   fibonacci_next v g =
     (\<lparr>sr_value = JNum (Num 0), sr_done = False\<rparr>, FSuspendedYield (Num 0) (Num 1))"
  by (cases g) simp_all

text \<open>
  C2. The eleven calls of the script on \<open>sequence = fibonacci()\<close>, seven times \<open>next()\<close>,
  then \<open>next(true)\<close>, then three times \<open>next()\<close>, return the values
  \<open>0, 1, 1, 2, 3, 5, 8\<close>, then \<open>0\<close>, then \<open>1, 1, 2\<close>, none of them done. In general a call
  of \<open>next\<close> with a truthy argument returns \<open>0\<close> and leaves the locals at
  \<open>current = 0\<close>, \<open>next = 1\<close>, whatever the generator's state was.
\<close>

theorem fibonacci_trace:
  "fst (resume_with fibonacci_next
      [JUndefined, JUndefined, JUndefined, JUndefined, JUndefined, JUndefined, JUndefined,
       JBool True, JUndefined, JUndefined, JUndefined] fibonacci)
     = map (\<lambda>n. \<lparr>sr_value = JNum (Num n), sr_done = False\<rparr>) [0, 1, 1, 2, 3, 5, 8, 0, 1, 1, 2]
   \<and> (\<forall>v g. truthy v \<longrightarrow>
         fibonacci_next v g =
           (\<lparr>sr_value = JNum (Num 0), sr_done = False\<rparr>, FSuspendedYield (Num 0) (Num 1)))"
proof -
  have "fst (resume_with fibonacci_next
      [JUndefined, JUndefined, JUndefined, JUndefined, JUndefined, JUndefined, JUndefined,
       JBool True, JUndefined, JUndefined, JUndefined] fibonacci)
     = map (\<lambda>n. \<lparr>sr_value = JNum (Num n), sr_done = False\<rparr>) [0, 1, 1, 2, 3, 5, 8, 0, 1, 1, 2]"
    by (simp add: fibonacci_def num_safe)
  then show ?thesis
    using fibonacci_next_reset by blast
qed

theorem fibonacci_trace_witness:
  "truthy (JBool True)
   \<and> fibonacci_next (JBool True) (FSuspendedYield (Num 8) (Num 13))
       = (\<lparr>sr_value = JNum (Num 0), sr_done = False\<rparr>, FSuspendedYield (Num 0) (Num 1))
   \<and> fst (resume_with fibonacci_next [JUndefined, JUndefined, JUndefined]
         (FSuspendedYield (Num 0) (Num 1)))
       = [\<lparr>sr_value = JNum (Num 1), sr_done = False\<rparr>, \<lparr>sr_value = JNum (Num 1), sr_done = False\<rparr>,
          \<lparr>sr_value = JNum (Num 2), sr_done = False\<rparr>]"
proof -
  have t: "truthy (JBool True)"
    by simp
  have "fibonacci_next (JBool True) (FSuspendedYield (Num 8) (Num 13))
       = (\<lparr>sr_value = JNum (Num 0), sr_done = False\<rparr>, FSuspendedYield (Num 0) (Num 1))"
    using fibonacci_trace t by blast
  then show ?thesis
    by (simp add: num_safe)
qed

subsection \<open>A step of zero\<close>

lemma range_next_zero_step:
  "range_next \<lparr>r_index = num a, r_end = e, r_step = Num 0\<rparr> =
     (\<lparr>sr_value = num a, sr_done = \<not> js_lt (num a) e\<rparr>,
      \<lparr>r_index = num a, r_end = e, r_step = Num 0\<rparr>)"
  by (simp add: range_next_def js_add_zero_num)

lemma resume_n_range_zero_step:
  "resume_n range_next n \<lparr>r_index = num a, r_end = e, r_step = Num 0\<rparr> =
     (replicate n \<lparr>sr_value = num a, sr_done = \<not> js_lt (num a) e\<rparr>,
      \<lparr>r_index = num a, r_end = e, r_step = Num 0\<rparr>)"
  by (rule resume_n_fixed) (rule range_next_zero_step)

lemma resume_n_xrange_completed:
  "resume_n (xrange_next v) n XCompleted =
     (replicate n \<lparr>sr_value = JUndefined, sr_done = True\<rparr>, XCompleted)"
  by (rule resume_n_fixed) simp

lemma resume_n_xrange_zero_step:
  "resume_n (xrange_next v) (Suc n) (XSuspendedStart (num a) e (Num 0)) =
     (if js_lt (num a) e
      then (replicate (Suc n) \<lparr>sr_value = JNum (num a), sr_done = False\<rparr>,
            XSuspendedYield (num a) e (Num 0))
      else (replicate (Suc n) \<lparr>sr_value = JUndefined, sr_done = True\<rparr>, XCompleted))"
proof (cases "js_lt (num a) e")
  case True
  have "xrange_next v (XSuspendedYield (num a) e (Num 0)) =
      (\<lparr>sr_value = JNum (num a), sr_done = False\<rparr>, XSuspendedYield (num a) e (Num 0))"
    using True by (simp add: xrange_test_def js_add_zero_num)
  then have "resume_n (xrange_next v) n (XSuspendedYield (num a) e (Num 0)) =
      (replicate n \<lparr>sr_value = JNum (num a), sr_done = False\<rparr>, XSuspendedYield (num a) e (Num 0))"
    by (rule resume_n_fixed)
  then show ?thesis
    using True by (simp add: xrange_test_def)
next
  case False
  then show ?thesis
    by (simp add: xrange_test_def resume_n_xrange_completed)
qed

text \<open>
  C4, as stated, fails: neither \<open>range\<close> nor \<open>xrange\<close> inspects \<open>step\<close>. \<open>range(0, 10, 0)\<close>
  and \<open>xrange(0, 10, 0)\<close> return a sequence, and its first \<open>next\<close> returns \<open>0\<close>.
\<close>

theorem zero_step_constructed:
  "range_iter (Some (Num 0)) (Some (Num 10)) (Some (Num 0))
     = \<lparr>r_index = Num 0, r_end = Num 10, r_step = Num 0\<rparr>
   \<and> xrange (Some (Num 0)) (Some (Num 10)) (Some (Num 0)) = XSuspendedStart (Num 0) (Num 10) (Num 0)
   \<and> fst (range_next (range_iter (Some (Num 0)) (Some (Num 10)) (Some (Num 0))))
        = \<lparr>sr_value = Num 0, sr_done = False\<rparr>
   \<and> fst (xrange_next JUndefined (xrange (Some (Num 0)) (Some (Num 10)) (Some (Num 0))))
        = \<lparr>sr_value = JNum (Num 0), sr_done = False\<rparr>"
  by (simp add: range_iter_def xrange_def range_next_def xrange_test_def)

text \<open>
  C4, amended. Constructing a ranged sequence with \<open>step = 0\<close> reports no error:
  \<open>range\<close> and \<open>xrange\<close> return a sequence whose cursor is \<open>start\<close>. Every \<open>next\<close> of
  \<open>range(start, end, 0)\<close> returns the value \<open>start\<close>, done exactly when \<open>start < end\<close> fails,
  and leaves the iterator unchanged; \<open>xrange(start, end, 0)\<close> yields \<open>start\<close> on every call
  when \<open>start < end\<close> and is completed from the first call on otherwise. Here \<open>start\<close> is
  the double \<open>num start\<close> of any integer, finite or infinite, and \<open>end\<close> any number.
\<close>

theorem zero_step_accepted:
  "range_iter (Some (num start)) (Some e) (Some (Num 0))
     = \<lparr>r_index = num start, r_end = e, r_step = Num 0\<rparr>
   \<and> xrange (Some (num start)) (Some e) (Some (Num 0)) = XSuspendedStart (num start) e (Num 0)
   \<and> resume_n range_next n (range_iter (Some (num start)) (Some e) (Some (Num 0)))
        = (replicate n \<lparr>sr_value = num start, sr_done = \<not> js_lt (num start) e\<rparr>,
           range_iter (Some (num start)) (Some e) (Some (Num 0)))
   \<and> fst (resume_n (xrange_next v) (Suc n) (xrange (Some (num start)) (Some e) (Some (Num 0))))
        = (if js_lt (num start) e
           then replicate (Suc n) \<lparr>sr_value = JNum (num start), sr_done = False\<rparr>
           else replicate (Suc n) \<lparr>sr_value = JUndefined, sr_done = True\<rparr>)"
proof -
  have r: "range_iter (Some (num start)) (Some e) (Some (Num 0))
      = \<lparr>r_index = num start, r_end = e, r_step = Num 0\<rparr>"
    by (simp add: range_iter_def)
  have x: "xrange (Some (num start)) (Some e) (Some (Num 0)) = XSuspendedStart (num start) e (Num 0)"
    by (simp add: xrange_def)
  have b: "fst (resume_n (xrange_next v) (Suc n) (XSuspendedStart (num start) e (Num 0)))
        = (if js_lt (num start) e
           then replicate (Suc n) \<lparr>sr_value = JNum (num start), sr_done = False\<rparr>
           else replicate (Suc n) \<lparr>sr_value = JUndefined, sr_done = True\<rparr>)"
    by (simp only: resume_n_xrange_zero_step fst_conv if_distrib [of fst] cong: if_cong)
  show ?thesis
    unfolding r x using resume_n_range_zero_step [of n start e] b by simp
qed

subsection \<open>The adapter\<close>

lemma for_of_iterable_value:
  "for_of_iterable console =
     Some (console @ [Num 0, Num 1, Num 2, Num 3, Num 4, Num 5, Num 6, Num 7, Num 8, Num 9])"
proof -
  have n: "(10::nat) = nat \<lceil>real_of_int (10 - 0) / real_of_int 1\<rceil>"
    by simp
  have l: "map (\<lambda>k. Num (0 + int k * 1)) [0..<10]
      = [Num 0, Num 1, Num 2, Num 3, Num 4, Num 5, Num 6, Num 7, Num 8, Num 9]"
    by (simp add: upt_rec)
  have "spread range_next \<lparr>r_index = Num 0, r_end = Num 10, r_step = Num 1\<rparr> console =
     Some (console @ map (\<lambda>k. Num (0 + int k * 1)) [0..<10])"
    by (rule spread_range_safe [OF _ _ _ n]) simp_all
  then show ?thesis
    unfolding l by (simp add: for_of_iterable_def iterable_iterator_def range_iter_def
        spread_eq_for_of_log)
qed

text \<open>
  C6. The \<open>for ... of\<close> loop over \<open>iterable\<close> prints what \<open>useRange\<close> prints, whatever
  the console held before; \<open>[...iterable]\<close> holds the same values in the same order,
  \<open>0, ..., 9\<close>. This is no accident of \<open>range(0, 10)\<close>: from every state of a \<open>range\<close>
  iterator the spread, the \<open>for ... of\<close> loop and the \<open>while\<close> loop of \<open>useRange\<close> started
  on its first result compute the same list, or all three run forever.
\<close>

theorem adapter_equivalence:
  "for_of_iterable console = useRange console
   \<and> useRange console
       = Some (console @ [Num 0, Num 1, Num 2, Num 3, Num 4, Num 5, Num 6, Num 7, Num 8, Num 9])
   \<and> numbers = Some [Num 0, Num 1, Num 2, Num 3, Num 4, Num 5, Num 6, Num 7, Num 8, Num 9]
   \<and> (\<forall>it. spread range_next it console = for_of_log range_next it console
           \<and> for_of_log range_next it console
               = useRange_while (fst (range_next it)) (snd (range_next it)) console)"
proof -
  have u: "useRange c = for_of_iterable c" for c
    by (simp add: useRange_def for_of_iterable_def iterable_iterator_def Let_def
        useRange_while_eq_for_of_log [symmetric] split: prod.split)
  have s: "numbers = for_of_iterable []"
    by (simp add: numbers_def for_of_iterable_def spread_eq_for_of_log)
  show ?thesis
    using for_of_iterable_value [of "[]"] for_of_iterable_value [of console]
    by (simp add: u s spread_eq_for_of_log useRange_while_eq_for_of_log)
qed

subsection \<open>The candidates of \<open>ip\<close>\<close>

lemma ip_with_cases:
  "ip_with parse_gw parse_cf req =
     (if truthy (parse_gw (hdr_api_gw req) ''secret'')
      then (Inr (parse_gw (hdr_api_gw req) ''secret''),
            [CallParseApiGateway (hdr_api_gw req) ''secret''])
      else if truthy (parse_cf (hdr_cf req))
      then (Inr (parse_cf (hdr_cf req)),
            [CallParseApiGateway (hdr_api_gw req) ''secret'', CallParseCloudflare (hdr_cf req)])
      else if truthy (req_ip req)
      then (Inr (req_ip req),
            [CallParseApiGateway (hdr_api_gw req) ''secret'', CallParseCloudflare (hdr_cf req)])
      else (Inl (Error could_not_determine),
            [CallParseApiGateway (hdr_api_gw req) ''secret'', CallParseCloudflare (hdr_cf req),
             LogError [(''api-gw-header'', hdr_api_gw req), (''cf-header'', hdr_cf req),
                       (''requestIp'', req_ip req)] could_not_determine]))"
proof -
  have s4: "ip_for_of parse_gw parse_cf req CSuspendedYield3 tr = (None, tr)" for tr
    by (subst ip_for_of.simps) simp
  have s3: "ip_for_of parse_gw parse_cf req CSuspendedYield2 tr =
      (if truthy (req_ip req) then (Some (req_ip req), tr) else (None, tr))" for tr
    by (subst ip_for_of.simps) (simp add: s4)
  have s2: "ip_for_of parse_gw parse_cf req CSuspendedYield1 tr =
      (if truthy (parse_cf (hdr_cf req))
       then (Some (parse_cf (hdr_cf req)), tr @ [CallParseCloudflare (hdr_cf req)])
       else ip_for_of parse_gw parse_cf req CSuspendedYield2 (tr @ [CallParseCloudflare (hdr_cf req)]))"
    for tr
    by (subst ip_for_of.simps) simp
  have s1: "ip_for_of parse_gw parse_cf req CSuspendedStart tr =
      (if truthy (parse_gw (hdr_api_gw req) ''secret'')
       then (Some (parse_gw (hdr_api_gw req) ''secret''),
             tr @ [CallParseApiGateway (hdr_api_gw req) ''secret''])
       else ip_for_of parse_gw parse_cf req CSuspendedYield1
             (tr @ [CallParseApiGateway (hdr_api_gw req) ''secret'']))"
    for tr
    by (subst ip_for_of.simps) simp
  show ?thesis
    unfolding ip_with_def Let_def s1 s2 s3 by simp
qed

text \<open>
  C3. With the three candidates \<open>parseApiGatewayHeader(apiGatewayHeader, "secret")\<close>,
  \<open>parseCloudflareHeader(cloudflareHeader)\<close> and \<open>requestIp\<close>:
  \<^item> when only the last is truthy, \<open>ip\<close> returns it and the trace holds one call of each
    parser, so neither ran twice;
  \<^item> when the first is truthy, \<open>ip\<close> returns it and the trace holds that one call: the
    second parser never ran; when the first is falsy and the second truthy, \<open>ip\<close> returns
    the second;
  \<^item> when all three are falsy, the trace ends with the call of \<open>reply.log.error\<close> on the
    two headers and \<open>requestIp\<close>, and \<open>ip\<close> throws
    \<open>Error("Could not determine user's IP based on request.")\<close>, the error the
    specification calls \<open>NoAcceptingCandidateError\<close>;
  \<^item> and \<open>ip\<close> throws in no other case.
  The witness runs the four cases; the script's own parsers return \<open>"parsed"\<close>, so its
  \<open>ip\<close> is always in the second.
\<close>

theorem ip_candidates_lazy:
  "(\<not> truthy (parse_gw (hdr_api_gw req) ''secret'') \<and> \<not> truthy (parse_cf (hdr_cf req))
      \<and> truthy (req_ip req) \<longrightarrow>
      ip_with parse_gw parse_cf req =
        (Inr (req_ip req),
         [CallParseApiGateway (hdr_api_gw req) ''secret'', CallParseCloudflare (hdr_cf req)]))
   \<and> (truthy (parse_gw (hdr_api_gw req) ''secret'') \<longrightarrow>
      ip_with parse_gw parse_cf req =
        (Inr (parse_gw (hdr_api_gw req) ''secret''),
         [CallParseApiGateway (hdr_api_gw req) ''secret'']))
   \<and> (\<not> truthy (parse_gw (hdr_api_gw req) ''secret'') \<and> truthy (parse_cf (hdr_cf req)) \<longrightarrow>
      ip_with parse_gw parse_cf req =
        (Inr (parse_cf (hdr_cf req)),
         [CallParseApiGateway (hdr_api_gw req) ''secret'', CallParseCloudflare (hdr_cf req)]))
   \<and> (\<not> truthy (parse_gw (hdr_api_gw req) ''secret'') \<and> \<not> truthy (parse_cf (hdr_cf req))
      \<and> \<not> truthy (req_ip req) \<longrightarrow>
      ip_with parse_gw parse_cf req =
        (Inl (Error could_not_determine),
         [CallParseApiGateway (hdr_api_gw req) ''secret'', CallParseCloudflare (hdr_cf req),
          LogError [(''api-gw-header'', hdr_api_gw req), (''cf-header'', hdr_cf req),
                    (''requestIp'', req_ip req)] could_not_determine]))
   \<and> ((\<exists>e. fst (ip_with parse_gw parse_cf req) = Inl e) =
      (\<not> truthy (parse_gw (hdr_api_gw req) ''secret'') \<and> \<not> truthy (parse_cf (hdr_cf req))
       \<and> \<not> truthy (req_ip req)))"
  by (simp add: ip_with_cases)

theorem ip_candidates_lazy_witness:
  "\<not> truthy ((\<lambda>h s. JStr []) (hdr_api_gw \<lparr>hdr_api_gw = JStr ''gw'', hdr_cf = JUndefined, req_ip = JStr ''10.0.0.1''\<rparr>) ''secret'')
   \<and> \<not> truthy ((\<lambda>h. JUndefined) (hdr_cf \<lparr>hdr_api_gw = JStr ''gw'', hdr_cf = JUndefined, req_ip = JStr ''10.0.0.1''\<rparr>))
   \<and> truthy (req_ip \<lparr>hdr_api_gw = JStr ''gw'', hdr_cf = JUndefined, req_ip = JStr ''10.0.0.1''\<rparr>)
   \<and> ip_with (\<lambda>h s. JStr []) (\<lambda>h. JUndefined)
        \<lparr>hdr_api_gw = JStr ''gw'', hdr_cf = JUndefined, req_ip = JStr ''10.0.0.1''\<rparr>
       = (Inr (JStr ''10.0.0.1''),
          [CallParseApiGateway (JStr ''gw'') ''secret'', CallParseCloudflare JUndefined])
   \<and> truthy (parseApiGatewayHeader JUndefined ''secret'')
   \<and> ip \<lparr>hdr_api_gw = JUndefined, hdr_cf = JUndefined, req_ip = JUndefined\<rparr>
       = (Inr (JStr ''parsed''), [CallParseApiGateway JUndefined ''secret''])
   \<and> truthy (parseCloudflareHeader JUndefined)
   \<and> ip_with (\<lambda>h s. JStr []) parseCloudflareHeader
        \<lparr>hdr_api_gw = JUndefined, hdr_cf = JUndefined, req_ip = JUndefined\<rparr>
       = (Inr (JStr ''parsed''),
          [CallParseApiGateway JUndefined ''secret'', CallParseCloudflare JUndefined])
   \<and> \<not> truthy (req_ip \<lparr>hdr_api_gw = JStr ''gw'', hdr_cf = JUndefined, req_ip = JNull\<rparr>)
   \<and> ip_with (\<lambda>h s. JStr []) (\<lambda>h. JUndefined)
        \<lparr>hdr_api_gw = JStr ''gw'', hdr_cf = JUndefined, req_ip = JNull\<rparr>
       = (Inl (Error could_not_determine),
          [CallParseApiGateway (JStr ''gw'') ''secret'', CallParseCloudflare JUndefined,
           LogError [(''api-gw-header'', JStr ''gw''), (''cf-header'', JUndefined),
                     (''requestIp'', JNull)] could_not_determine])"
proof -
  let ?gw = "\<lambda>(h::jsval) (s::string). JStr []" and ?cf = "\<lambda>h::jsval. JUndefined"
  let ?r1 = "\<lparr>hdr_api_gw = JStr ''gw'', hdr_cf = JUndefined, req_ip = JStr ''10.0.0.1''\<rparr>"
  let ?r2 = "\<lparr>hdr_api_gw = JUndefined, hdr_cf = JUndefined, req_ip = JUndefined\<rparr>"
  let ?r3 = "\<lparr>hdr_api_gw = JStr ''gw'', hdr_cf = JUndefined, req_ip = JNull\<rparr>"
  have a: "ip_with ?gw ?cf ?r1
       = (Inr (JStr ''10.0.0.1''),
          [CallParseApiGateway (JStr ''gw'') ''secret'', CallParseCloudflare JUndefined])"
    using ip_candidates_lazy [of ?gw ?r1 ?cf] by simp
  have b: "ip ?r2 = (Inr (JStr ''parsed''), [CallParseApiGateway JUndefined ''secret''])"
    using ip_candidates_lazy [of parseApiGatewayHeader ?r2 parseCloudflareHeader]
    by (simp add: ip_def parseApiGatewayHeader_def)
  have c: "ip_with ?gw parseCloudflareHeader ?r2
       = (Inr (JStr ''parsed''),
          [CallParseApiGateway JUndefined ''secret'', CallParseCloudflare JUndefined])"
    using ip_candidates_lazy [of ?gw ?r2 parseCloudflareHeader]
    by (simp add: parseCloudflareHeader_def)
  have d: "ip_with ?gw ?cf ?r3
       = (Inl (Error could_not_determine),
          [CallParseApiGateway (JStr ''gw'') ''secret'', CallParseCloudflare JUndefined,
           LogError [(''api-gw-header'', JStr ''gw''), (''cf-header'', JUndefined),
                     (''requestIp'', JNull)] could_not_determine])"
    using ip_candidates_lazy [of ?gw ?r3 ?cf] by simp
  show ?thesis
    using a b c d by (simp add: parseApiGatewayHeader_def parseCloudflareHeader_def)
qed

subsection \<open>Exhausted ranges\<close>

lemma range_next_frame:
  "r_end (snd (range_next s)) = r_end s \<and> r_step (snd (range_next s)) = r_step s"
  by (simp add: range_next_def)

lemma range_next_value:
  "sr_value (fst (range_next s)) = r_index s"
  by (simp add: range_next_def)

lemma resume_n_range_below:
  assumes "resume_n range_next n it = (rs, it')" and "list_all (\<lambda>r. \<not> sr_done r) rs"
  shows "r_end it' = r_end it \<and> list_all (\<lambda>r. js_lt (sr_value r) (r_end it)) rs"
  using assms
proof (induction n arbitrary: it rs)
  case 0
  then show ?case by simp
next
  case (Suc n)
  obtain r it1 where step: "range_next it = (r, it1)"
    by (cases "range_next it")
  obtain rs1 where rest: "resume_n range_next n it1 = (rs1, it')" and rs: "rs = r # rs1"
    using Suc.prems(1) step by (auto split: prod.splits)
  have nd: "\<not> sr_done r" "list_all (\<lambda>r. \<not> sr_done r) rs1"
    using Suc.prems(2) rs by simp_all
  have e1: "r_end it1 = r_end it"
    using range_next_frame [of it] step by simp
  have "js_lt (r_index it) (r_end it)"
    using nd(1) range_next_done_iff [of it] step by simp
  then have "js_lt (sr_value r) (r_end it)"
    using range_next_value [of it] step by simp
  then show ?case
    using Suc.IH [OF rest nd(2)] e1 rs by simp
qed

text \<open>A range that is spread to \<open>xs\<close> is not done for \<open>length xs\<close> calls and exhausted from
  then on: the calls return the cursor, which stays as it is.\<close>

lemma range_spread_run:
  assumes "spread range_next it [] = Some xs"
  shows "\<exists>rs it'. resume_n range_next (length xs) it = (rs, it')
           \<and> list_all (\<lambda>r. \<not> sr_done r) rs \<and> \<not> js_lt (r_index it') (r_end it')
           \<and> (\<forall>m. resume_n range_next (length xs + m) it
                 = (rs @ replicate m \<lparr>sr_value = r_index it', sr_done = True\<rparr>, it'))"
proof -
  from spread_returns_run [OF assms] obtain n rs it'
    where all: "resume_n range_next n it = (rs, it') \<and> list_all (\<lambda>r. \<not> sr_done r) rs
           \<and> sr_done (fst (range_next it')) \<and> xs = [] @ map sr_value rs"
    by (elim exE)
  have run: "resume_n range_next n it = (rs, it')"
    using all by (rule conjunct1)
  have nd: "list_all (\<lambda>r. \<not> sr_done r) rs" and d: "sr_done (fst (range_next it'))"
    and xs: "xs = map sr_value rs"
    using all by simp_all
  have "length rs = n"
    using resume_n_length [of range_next n it] run by simp
  then have n: "length xs = n"
    using xs by simp
  have ex: "\<not> js_lt (r_index it') (r_end it')"
    using d by (simp add: range_next_done_iff)
  have "resume_n range_next (n + m) it
      = (rs @ replicate m \<lparr>sr_value = r_index it', sr_done = True\<rparr>, it')" for m
    by (simp add: resume_n_add run resume_n_range_exhausted [OF ex])
  then show ?thesis
    unfolding n using run nd ex by blast
qed



lemma spread_0_10_3:
  "spread range_next (range_iter (Some (Num 0)) (Some (Num 10)) (Some (Num 3))) []
     = Some [Num 0, Num 3, Num 6, Num 9]"
proof -
  have n: "(4::nat) = nat \<lceil>real_of_int (10 - 0) / real_of_int 3\<rceil>"
    by simp
  have l: "map (\<lambda>k. Num (0 + int k * 3)) [0..<4] = [Num 0, Num 3, Num 6, Num 9]"
    by (simp add: upt_rec)
  have "spread range_next \<lparr>r_index = Num 0, r_end = Num 10, r_step = Num 3\<rparr> [] =
     Some ([] @ map (\<lambda>k. Num (0 + int k * 3)) [0..<4])"
    by (rule spread_range_safe [OF _ _ _ n]) simp_all
  then show ?thesis
    unfolding l by (simp add: range_iter_def)
qed


lemma resume_n_numeral:
  "resume_n nxt (numeral k) it =
     (case nxt it of (r, it') \<Rightarrow>
        (case resume_n nxt (pred_numeral k) it' of (rs, it'') \<Rightarrow> (r # rs, it'')))"
  by (simp add: numeral_eq_Suc)

text \<open>
  C10, as stated, fails in its formula: the value of the terminal results is the cursor
  at exhaustion, and that is \<open>start + step * count\<close> only while the sums are exact.
  \<open>range(2^53, 2^53 + 12, 3)\<close> produces three values and then returns \<open>2^53 + 12\<close> with
  \<open>done = true\<close> on every call, while \<open>start + step * 3\<close> is \<open>2^53 + 9\<close>, whose nearest
  double is \<open>2^53 + 8\<close>.
\<close>

theorem range_terminal_value_rounds:
  "resume_n range_next 5 (range_iter (Some (Num (2 ^ 53))) (Some (Num (2 ^ 53 + 12))) (Some (Num 3)))
     = ([\<lparr>sr_value = Num (2 ^ 53), sr_done = False\<rparr>,
         \<lparr>sr_value = Num (2 ^ 53 + 4), sr_done = False\<rparr>,
         \<lparr>sr_value = Num (2 ^ 53 + 8), sr_done = False\<rparr>,
         \<lparr>sr_value = Num (2 ^ 53 + 12), sr_done = True\<rparr>,
         \<lparr>sr_value = Num (2 ^ 53 + 12), sr_done = True\<rparr>],
        \<lparr>r_index = Num (2 ^ 53 + 12), r_end = Num (2 ^ 53 + 12), r_step = Num 3\<rparr>)
   \<and> num (2 ^ 53 + 3 * 3) = Num (2 ^ 53 + 8)"
  by (simp add: range_iter_def range_next_def resume_n_numeral num_54)

text \<open>
  C10, amended. Once a sequence produced by \<open>range\<close> is exhausted its cursor is never
  assigned again: if spreading it returns \<open>xs\<close>, then after \<open>length xs\<close> and any number \<open>m\<close>
  of further calls the iterator is as it was after \<open>length xs\<close> calls, each of the \<open>m\<close>
  calls returns that cursor with \<open>done = true\<close>, the cursor is not below \<open>end\<close>, and every
  value produced before was below \<open>end\<close>. For integers \<open>start\<close>, \<open>end\<close> and \<open>step\<close> of
  magnitude at most \<open>2^53\<close> with \<open>step > 0\<close> and \<open>N = ceil((end - start) / step)\<close>, that
  cursor is the double nearest to \<open>start + step * N\<close>, which is \<open>start + step * N\<close> itself
  when this is at most \<open>2^53\<close>, and \<open>start + step * N\<close> is the first term of the progression
  not below \<open>end\<close>.
\<close>

theorem range_exhausted_cursor_fixed:
  fixes start e step :: int
  shows
  "(spread range_next it [] = Some xs \<longrightarrow>
      resume_n range_next (length xs + m) it
        = (fst (resume_n range_next (length xs) it)
             @ replicate m \<lparr>sr_value = r_index (snd (resume_n range_next (length xs) it)),
                            sr_done = True\<rparr>,
           snd (resume_n range_next (length xs) it))
      \<and> \<not> js_lt (r_index (snd (resume_n range_next (length xs) it))) (r_end it)
      \<and> list_all (\<lambda>r. js_lt (sr_value r) (r_end it)) (fst (resume_n range_next (length xs) it)))
   \<and> (\<bar>start\<bar> \<le> 2 ^ 53 \<and> \<bar>e\<bar> \<le> 2 ^ 53 \<and> 0 < step \<and> step \<le> 2 ^ 53
        \<and> N = nat \<lceil>real_of_int (e - start) / real_of_int step\<rceil> \<longrightarrow>
      r_index (snd (resume_n range_next N
          (range_iter (Some (Num start)) (Some (Num e)) (Some (Num step)))))
        = num (start + step * int N)
      \<and> (start + step * int N \<le> 2 ^ 53 \<longrightarrow>
            num (start + step * int N) = Num (start + step * int N))
      \<and> e \<le> start + step * int N
      \<and> (\<forall>k<N. start + step * int k < e))"
proof (intro conjI impI)
  assume sp: "spread range_next it [] = Some xs"
  from range_spread_run [OF sp] obtain rs it'
    where run: "resume_n range_next (length xs) it = (rs, it')"
      and nd: "list_all (\<lambda>r. \<not> sr_done r) rs"
      and ex: "\<not> js_lt (r_index it') (r_end it')"
      and later: "\<forall>m. resume_n range_next (length xs + m) it
                 = (rs @ replicate m \<lparr>sr_value = r_index it', sr_done = True\<rparr>, it')"
    by blast
  have below: "r_end it' = r_end it \<and> list_all (\<lambda>r. js_lt (sr_value r) (r_end it)) rs"
    by (rule resume_n_range_below [OF run nd])
  show "resume_n range_next (length xs + m) it
        = (fst (resume_n range_next (length xs) it)
             @ replicate m \<lparr>sr_value = r_index (snd (resume_n range_next (length xs) it)),
                            sr_done = True\<rparr>,
           snd (resume_n range_next (length xs) it))"
    using later [rule_format, of m] by (simp add: run)
  show "\<not> js_lt (r_index (snd (resume_n range_next (length xs) it))) (r_end it)"
    using ex below by (simp add: run)
  show "list_all (\<lambda>r. js_lt (sr_value r) (r_end it)) (fst (resume_n range_next (length xs) it))"
    using below by (simp add: run)
next
  assume h: "\<bar>start\<bar> \<le> 2 ^ 53 \<and> \<bar>e\<bar> \<le> 2 ^ 53 \<and> 0 < step \<and> step \<le> 2 ^ 53
        \<and> N = nat \<lceil>real_of_int (e - start) / real_of_int step\<rceil>"
  then have hs: "\<bar>start\<bar> \<le> 2 ^ 53" "\<bar>e\<bar> \<le> 2 ^ 53" "0 < step"
    "N = nat \<lceil>real_of_int (e - start) / real_of_int step\<rceil>"
    by simp_all
  have prog: "(\<forall>k<N. is_double (start + int k * step) \<and> js_lt (Num (start + int k * step)) (Num e))
       \<and> e \<le> start + int N * step"
    by (rule safe_progression [OF hs])
  have s: "num start = Num start"
    by (rule num_safe [OF hs(1)])
  have "resume_n range_next N \<lparr>r_index = Num start, r_end = Num e, r_step = Num step\<rparr> =
     (map (\<lambda>k. \<lparr>sr_value = Num (start + int k * step), sr_done = False\<rparr>) [0..<N],
      \<lparr>r_index = num (start + int N * step), r_end = Num e, r_step = Num step\<rparr>)"
    using resume_n_range_exact [of N start step "Num e"] prog unfolding s by blast
  then show "r_index (snd (resume_n range_next N
          (range_iter (Some (Num start)) (Some (Num e)) (Some (Num step)))))
        = num (start + step * int N)"
    by (simp add: range_iter_def mult.commute)
  show "e \<le> start + step * int N"
    using prog by (simp add: mult.commute)
  show "\<forall>k<N. start + step * int k < e"
    using prog by (simp add: mult.commute)
next
  assume h: "\<bar>start\<bar> \<le> 2 ^ 53 \<and> \<bar>e\<bar> \<le> 2 ^ 53 \<and> 0 < step \<and> step \<le> 2 ^ 53
        \<and> N = nat \<lceil>real_of_int (e - start) / real_of_int step\<rceil>"
    and le: "start + step * int N \<le> 2 ^ 53"
  have "0 \<le> step * int N"
    using h by simp
  then have "\<bar>start + step * int N\<bar> \<le> 2 ^ 53"
    using h le by linarith
  then show "num (start + step * int N) = Num (start + step * int N)"
    by (rule num_safe)
qed

theorem range_exhausted_cursor_fixed_witness:
  "spread range_next (range_iter (Some (Num 0)) (Some (Num 10)) (Some (Num 3))) []
     = Some [Num 0, Num 3, Num 6, Num 9]
   \<and> resume_n range_next (4 + 3) (range_iter (Some (Num 0)) (Some (Num 10)) (Some (Num 3)))
       = ([\<lparr>sr_value = Num 0, sr_done = False\<rparr>, \<lparr>sr_value = Num 3, sr_done = False\<rparr>,
           \<lparr>sr_value = Num 6, sr_done = False\<rparr>, \<lparr>sr_value = Num 9, sr_done = False\<rparr>,
           \<lparr>sr_value = Num 12, sr_done = True\<rparr>, \<lparr>sr_value = Num 12, sr_done = True\<rparr>,
           \<lparr>sr_value = Num 12, sr_done = True\<rparr>],
          \<lparr>r_index = Num 12, r_end = Num 10, r_step = Num 3\<rparr>)
   \<and> \<bar>0::int\<bar> \<le> 2 ^ 53 \<and> \<bar>10::int\<bar> \<le> 2 ^ 53 \<and> (0::int) < 3 \<and> (3::int) \<le> 2 ^ 53
   \<and> (4::nat) = nat \<lceil>real_of_int (10 - 0) / real_of_int 3\<rceil>
   \<and> (0::int) + 3 * int 4 \<le> 2 ^ 53
   \<and> r_index (snd (resume_n range_next 4
         (range_iter (Some (Num 0)) (Some (Num 10)) (Some (Num 3))))) = Num 12"
proof -
  let ?it = "range_iter (Some (Num 0)) (Some (Num 10)) (Some (Num 3))"
  have h: "\<bar>0::int\<bar> \<le> 2 ^ 53 \<and> \<bar>10::int\<bar> \<le> 2 ^ 53 \<and> (0::int) < 3 \<and> (3::int) \<le> 2 ^ 53
        \<and> (4::nat) = nat \<lceil>real_of_int (10 - 0) / real_of_int 3\<rceil>"
    by simp
  have le: "(0::int) + 3 * int 4 \<le> 2 ^ 53"
    by simp
  have four: "resume_n range_next 4 ?it
      = ([\<lparr>sr_value = Num 0, sr_done = False\<rparr>, \<lparr>sr_value = Num 3, sr_done = False\<rparr>,
          \<lparr>sr_value = Num 6, sr_done = False\<rparr>, \<lparr>sr_value = Num 9, sr_done = False\<rparr>],
         \<lparr>r_index = Num 12, r_end = Num 10, r_step = Num 3\<rparr>)"
    by (simp add: range_iter_def range_next_def resume_n_numeral num_safe)
  have len: "length [Num 0, Num 3, Num 6, Num 9] = 4"
    by simp
  note inst = range_exhausted_cursor_fixed
    [where it = ?it and xs = "[Num 0, Num 3, Num 6, Num 9]" and m = 3
       and start = 0 and e = 10 and step = 3 and N = 4,
     unfolded len four fst_conv snd_conv]
  have rep: "replicate 3 x = [x, x, x]" for x :: "jsnum step_result"
    by (simp add: numeral_3_eq_3)
  have a: "resume_n range_next (4 + 3) ?it
       = ([\<lparr>sr_value = Num 0, sr_done = False\<rparr>, \<lparr>sr_value = Num 3, sr_done = False\<rparr>,
           \<lparr>sr_value = Num 6, sr_done = False\<rparr>, \<lparr>sr_value = Num 9, sr_done = False\<rparr>,
           \<lparr>sr_value = Num 12, sr_done = True\<rparr>, \<lparr>sr_value = Num 12, sr_done = True\<rparr>,
           \<lparr>sr_value = Num 12, sr_done = True\<rparr>],
          \<lparr>r_index = Num 12, r_end = Num 10, r_step = Num 3\<rparr>)"
    using conjunct1 [OF mp [OF conjunct1 [OF inst] spread_0_10_3]]
    by (simp only: rep append.simps range_state.simps)
  note sec = mp [OF conjunct2 [OF inst] h]
  have c1: "r_index \<lparr>r_index = Num 12, r_end = Num 10, r_step = Num 3\<rparr> = num (0 + 3 * int 4)"
    by (rule conjunct1 [OF sec])
  have c2: "num (0 + 3 * int 4) = Num (0 + 3 * int 4)"
    by (rule mp [OF conjunct1 [OF conjunct2 [OF sec]] le])
  have "r_index (snd (resume_n range_next 4 ?it)) = num (0 + 3 * int 4)"
    unfolding four snd_conv by (rule c1)
  also have "\<dots> = Num 12"
    unfolding c2 by simp
  finally have b: "r_index (snd (resume_n range_next 4 ?it)) = Num 12" .
  have hs: "\<bar>0::int\<bar> \<le> 2 ^ 53" "\<bar>10::int\<bar> \<le> 2 ^ 53" "(0::int) < 3" "(3::int) \<le> 2 ^ 53"
    "(4::nat) = nat \<lceil>real_of_int (10 - 0) / real_of_int 3\<rceil>"
    by simp_all
  show ?thesis
    by (intro conjI) (rule spread_0_10_3 a b le hs)+
qed

end
